theory Spec2Isabelle
  imports Main
begin

section \<open>Python values used by the tokenizers\<close>

text \<open>
  Tokens are Python integers (\<open>base.py\<close>: \<open>TokenList = List[int]\<close>,
  \<open>TokenPair = Tuple[int, int]\<close>). A \<open>bytes\<close> object is a list of byte values
  \<open>0..255\<close>, a \<open>str\<close> is the list of its code points.
\<close>

type_synonym TokenList = "int list"
type_synonym TokenPair = "int \<times> int"
type_synonym bytes = "nat list"
type_synonym str = "nat list"

text \<open>
  The exceptions the code can raise: the explicit \<open>Exception('Tokenizer has not been
  trained, ...')\<close> of \<open>encode\<close>/\<open>decode\<close>, the \<open>KeyError\<close> of a failed dictionary
  subscript, the \<open>ValueError\<close> of \<open>max\<close> on an empty iterable and the
  \<open>UnicodeEncodeError\<close> of \<open>str.encode('utf-8')\<close>.
\<close>

datatype error = NotTrained | KeyError int | ValueError | UnicodeEncodeError

section \<open>Merge kernel\<close>

subsection \<open>\<open>_merge\<close> (identical in \<open>basic.py\<close> and \<open>regex.py\<close>)\<close>

text \<open>
  The \<open>while i < len(tokens)\<close> loop of \<open>_merge\<close>, with the loop variables \<open>i\<close> and
  \<open>new_tokens\<close> as arguments. Inside the loop \<open>len(tokens) \<ge> 1\<close>, so the
  subtraction \<open>len(tokens) - 1\<close> does not go below zero.
\<close>

function merge_loop :: "TokenList \<Rightarrow> TokenPair \<Rightarrow> int \<Rightarrow> nat \<Rightarrow> TokenList \<Rightarrow> TokenList" where
  "merge_loop tokens pair_to_replace replacement_token i new_tokens =
     (if i < length tokens then
        (if (if i < length tokens - 1
             then fst pair_to_replace = tokens ! i \<and> snd pair_to_replace = tokens ! (i + 1)
             else False)
         then merge_loop tokens pair_to_replace replacement_token (i + 2)
                (new_tokens @ [replacement_token])
         else merge_loop tokens pair_to_replace replacement_token (i + 1)
                (new_tokens @ [tokens ! i]))
      else new_tokens)"
  by pat_completeness auto
termination
  by (relation "measure (\<lambda>(tokens, p, r, i, acc). length tokens - i)") auto

declare merge_loop.simps [simp del]

definition merge :: "TokenList \<Rightarrow> TokenPair \<Rightarrow> int \<Rightarrow> TokenList" where
  "merge tokens pair_to_replace replacement_token =
     merge_loop tokens pair_to_replace replacement_token 0 []"

text \<open>
  The specification's wording of the same operation: scan from the left, replace an
  occurrence of the pair by the replacement and resume after the two consumed elements.
\<close>

fun merge_greedy :: "TokenList \<Rightarrow> TokenPair \<Rightarrow> int \<Rightarrow> TokenList" where
  "merge_greedy (a # b # xs) p r =
     (if p = (a, b) then r # merge_greedy xs p r else a # merge_greedy (b # xs) p r)"
| "merge_greedy xs p r = xs"

section \<open>Library operations the tokenizers call\<close>

subsection \<open>Dictionaries\<close>

text \<open>
  A Python \<open>dict\<close> (and \<open>collections.OrderedDict\<close>) iterates in insertion order, and
  an assignment to a key that is already present replaces the value at the key's
  position. Both facts matter here: \<open>max\<close> returns the first maximal key it meets and
  \<open>encode\<close> replays \<open>self._merges.items()\<close> in order. So a dictionary is an
  association list, \<open>d[k] = v\<close> is \<open>dict_set\<close>, \<open>d.get(k, default)\<close> is \<open>dict_get\<close> and
  the subscript \<open>d[k]\<close>, which raises \<open>KeyError\<close>, is \<open>dict_subscript\<close>.
\<close>

type_synonym ('k, 'v) dict = "('k \<times> 'v) list"

fun dict_set :: "('k, 'v) dict \<Rightarrow> 'k \<Rightarrow> 'v \<Rightarrow> ('k, 'v) dict" where
  "dict_set [] k v = [(k, v)]"
| "dict_set ((k', v') # d) k v =
     (if k' = k then (k', v) # d else (k', v') # dict_set d k v)"

definition dict_get :: "('k, 'v) dict \<Rightarrow> 'k \<Rightarrow> 'v \<Rightarrow> 'v" where
  "dict_get d k dflt = (case map_of d k of None \<Rightarrow> dflt | Some v \<Rightarrow> v)"

definition dict_subscript :: "(int, 'v) dict \<Rightarrow> int \<Rightarrow> error + 'v" where
  "dict_subscript d k = (case map_of d k of None \<Rightarrow> Inl (KeyError k) | Some v \<Rightarrow> Inr v)"

type_synonym PairCounts = "(TokenPair, int) dict"
type_synonym Merges = "(TokenPair, int) dict"
type_synonym VocabDict = "(int, bytes) dict"

text \<open>
  \<open>max(pair_counts, key=pair_counts.get)\<close>: the keys are visited in insertion order,
  each with its own count as the sort key; a later key replaces the current maximum only
  when its count is strictly greater, and an empty dictionary raises \<open>ValueError\<close>.
\<close>

fun max_loop :: "'k \<times> int \<Rightarrow> ('k, int) dict \<Rightarrow> 'k \<times> int" where
  "max_loop best [] = best"
| "max_loop best (kv # d) = (if snd kv > snd best then max_loop kv d else max_loop best d)"

definition max_by_count :: "('k, int) dict \<Rightarrow> error + 'k" where
  "max_by_count d = (case d of [] \<Rightarrow> Inl ValueError | kv # d' \<Rightarrow> Inr (fst (max_loop kv d')))"

text \<open>\<open>range(n)\<close>: empty when \<open>n \<le> 0\<close>.\<close>

definition py_range :: "int \<Rightarrow> int list" where
  "py_range n = map int [0..<nat n]"

subsection \<open>UTF-8\<close>

text \<open>
  \<open>str.encode('utf-8')\<close>, one code point at a time. A surrogate code point
  (\<open>U+D800..U+DFFF\<close>) makes the call raise \<open>UnicodeEncodeError\<close>. A Python string holds
  no value above \<open>U+10FFFF\<close>; the model refuses such a number as well, so every list with
  an encoding is a string.
\<close>

definition utf8_encode_char :: "nat \<Rightarrow> error + bytes" where
  "utf8_encode_char c =
     (if c < 0x80 then Inr [c]
      else if c < 0x800 then Inr [0xC0 + c div 64, 0x80 + c mod 64]
      else if c < 0x10000 then
        (if 0xD800 \<le> c \<and> c \<le> 0xDFFF then Inl UnicodeEncodeError
         else Inr [0xE0 + c div 4096, 0x80 + (c div 64) mod 64, 0x80 + c mod 64])
      else if c < 0x110000 then
        Inr [0xF0 + c div 262144, 0x80 + (c div 4096) mod 64,
             0x80 + (c div 64) mod 64, 0x80 + c mod 64]
      else Inl UnicodeEncodeError)"

fun utf8_encode :: "str \<Rightarrow> error + bytes" where
  "utf8_encode [] = Inr []"
| "utf8_encode (c # cs) =
     (case utf8_encode_char c of
        Inl e \<Rightarrow> Inl e
      | Inr b \<Rightarrow> (case utf8_encode cs of Inl e \<Rightarrow> Inl e | Inr bs \<Rightarrow> Inr (b @ bs)))"

text \<open>
  \<open>bytes.decode('utf-8', errors='replace')\<close>, as CPython's decoder does it: a byte
  that cannot start a sequence, and a started sequence cut short by a byte that cannot
  continue it or by the end of the data, become one \<open>U+FFFD\<close> each, and decoding
  resumes at the offending byte. Overlong forms, surrogates and values above
  \<open>U+10FFFF\<close> are rejected at the second byte.
\<close>

definition is_continuation_byte :: "nat \<Rightarrow> bool" where
  "is_continuation_byte b = (0x80 \<le> b \<and> b < 0xC0)"

fun utf8_decode_replace :: "bytes \<Rightarrow> str" where
  "utf8_decode_replace [] = []"
| "utf8_decode_replace (ch # s) =
     (if ch < 0x80 then ch # utf8_decode_replace s
      else if ch < 0xC2 then 0xFFFD # utf8_decode_replace s
      else if ch < 0xE0 then
        (case s of
           [] \<Rightarrow> [0xFFFD]
         | ch2 # s2 \<Rightarrow>
             if \<not> is_continuation_byte ch2 then 0xFFFD # utf8_decode_replace s
             else ((ch - 0xC0) * 64 + (ch2 - 0x80)) # utf8_decode_replace s2)
      else if ch < 0xF0 then
        (case s of
           [] \<Rightarrow> [0xFFFD]
         | ch2 # s2 \<Rightarrow>
             if \<not> is_continuation_byte ch2 \<or> (if ch2 < 0xA0 then ch = 0xE0 else ch = 0xED)
             then 0xFFFD # utf8_decode_replace s
             else
               (case s2 of
                  [] \<Rightarrow> [0xFFFD]
                | ch3 # s3 \<Rightarrow>
                    if \<not> is_continuation_byte ch3 then 0xFFFD # utf8_decode_replace s2
                    else ((ch - 0xE0) * 4096 + (ch2 - 0x80) * 64 + (ch3 - 0x80))
                           # utf8_decode_replace s3))
      else if ch < 0xF5 then
        (case s of
           [] \<Rightarrow> [0xFFFD]
         | ch2 # s2 \<Rightarrow>
             if \<not> is_continuation_byte ch2 \<or> (if ch2 < 0x90 then ch = 0xF0 else ch = 0xF4)
             then 0xFFFD # utf8_decode_replace s
             else
               (case s2 of
                  [] \<Rightarrow> [0xFFFD]
                | ch3 # s3 \<Rightarrow>
                    if \<not> is_continuation_byte ch3 then 0xFFFD # utf8_decode_replace s2
                    else
                      (case s3 of
                         [] \<Rightarrow> [0xFFFD]
                       | ch4 # s4 \<Rightarrow>
                           if \<not> is_continuation_byte ch4 then 0xFFFD # utf8_decode_replace s3
                           else ((ch - 0xF0) * 262144 + (ch2 - 0x80) * 4096
                                   + (ch3 - 0x80) * 64 + (ch4 - 0x80))
                                  # utf8_decode_replace s4)))
      else 0xFFFD # utf8_decode_replace s)"

section \<open>Byte Tokenizer (\<open>basic.py\<close>)\<close>

text \<open>\<open>_count_pairs\<close>: the loop over \<open>zip(tokens, tokens[1:])\<close>.\<close>

definition count_pair :: "PairCounts \<Rightarrow> TokenPair \<Rightarrow> PairCounts" where
  "count_pair counts pair = dict_set counts pair (dict_get counts pair 0 + 1)"

definition basic_count_pairs :: "TokenList \<Rightarrow> PairCounts" where
  "basic_count_pairs tokens = foldl count_pair [] (zip tokens (drop 1 tokens))"

text \<open>\<open>vocab = {idx: bytes([idx]) for idx in range(256)}\<close>\<close>

definition base_vocab :: VocabDict where
  "base_vocab = map (\<lambda>idx. (int idx, [idx])) [0..<256]"

text \<open>
  One iteration of the \<open>for i in range(number_of_merges)\<close> loop of
  \<open>_byte_pair_encode\<close>, on the loop state \<open>(tokens, vocab, merges)\<close>.
\<close>

definition basic_bpe_step ::
  "int \<Rightarrow> int \<Rightarrow> TokenList \<times> VocabDict \<times> Merges \<Rightarrow> error + TokenList \<times> VocabDict \<times> Merges" where
  "basic_bpe_step original_vocab_size i st =
     (case st of (tokens, vocab, merges) \<Rightarrow>
        let pair_counts = basic_count_pairs tokens in
        (case max_by_count pair_counts of
           Inl e \<Rightarrow> Inl e
         | Inr top_pair \<Rightarrow>
             let new_index = original_vocab_size + i;
                 tokens' = merge tokens top_pair new_index;
                 merges' = dict_set merges top_pair new_index
             in (case dict_subscript vocab (fst top_pair) of
                   Inl e \<Rightarrow> Inl e
                 | Inr b0 \<Rightarrow>
                     (case dict_subscript vocab (snd top_pair) of
                        Inl e \<Rightarrow> Inl e
                      | Inr b1 \<Rightarrow> Inr (tokens', dict_set vocab new_index (b0 @ b1), merges')))))"

fun basic_bpe_loop ::
  "int \<Rightarrow> int list \<Rightarrow> TokenList \<times> VocabDict \<times> Merges \<Rightarrow> error + TokenList \<times> VocabDict \<times> Merges" where
  "basic_bpe_loop original_vocab_size [] st = Inr st"
| "basic_bpe_loop original_vocab_size (i # is) st =
     (case basic_bpe_step original_vocab_size i st of
        Inl e \<Rightarrow> Inl e
      | Inr st' \<Rightarrow> basic_bpe_loop original_vocab_size is st')"

definition basic_byte_pair_encode :: "TokenList \<Rightarrow> int \<Rightarrow> int \<Rightarrow> error + VocabDict \<times> Merges" where
  "basic_byte_pair_encode tokens original_vocab_size number_of_merges =
     (case basic_bpe_loop original_vocab_size (py_range number_of_merges) (tokens, base_vocab, []) of
        Inl e \<Rightarrow> Inl e
      | Inr (tokens', vocab, merges) \<Rightarrow> Inr (vocab, merges))"

text \<open>
  The tokenizer object: \<open>__init__\<close> sets both fields to \<open>None\<close>. A method that can
  assign to \<open>self\<close> returns the object next to its result; when it raises, the object it
  returns is the one the exception leaves behind.
\<close>

record tokenizer =
  self_vocab :: "VocabDict option"
  self_merges :: "Merges option"

definition init_tokenizer :: tokenizer where
  "init_tokenizer = \<lparr>self_vocab = None, self_merges = None\<rparr>"

definition basic_train :: "tokenizer \<Rightarrow> str \<Rightarrow> int \<Rightarrow> (error + unit) \<times> tokenizer" where
  "basic_train self text vocab_size =
     (case utf8_encode text of
        Inl e \<Rightarrow> (Inl e, self)
      | Inr text_utf8 \<Rightarrow>
          let tokens = map int text_utf8;
              number_of_merges = vocab_size - 256
          in (case basic_byte_pair_encode tokens vocab_size number_of_merges of
                Inl e \<Rightarrow> (Inl e, self)
              | Inr (vocab, merges) \<Rightarrow>
                  (Inr (), self\<lparr>self_vocab := Some vocab, self_merges := Some merges\<rparr>)))"

text \<open>The replay loop \<open>for pair, replacement_token in self._merges.items()\<close>.\<close>

definition replay_merges :: "Merges \<Rightarrow> TokenList \<Rightarrow> TokenList" where
  "replay_merges merges tokens =
     foldl (\<lambda>tokens (pair, replacement_token). merge tokens pair replacement_token) tokens merges"

definition basic_encode :: "tokenizer \<Rightarrow> str \<Rightarrow> error + TokenList" where
  "basic_encode self text =
     (case (self_vocab self, self_merges self) of
        (Some vocab, Some merges) \<Rightarrow>
          (case utf8_encode text of
             Inl e \<Rightarrow> Inl e
           | Inr text_utf8 \<Rightarrow> Inr (replay_merges merges (map int text_utf8)))
      | _ \<Rightarrow> Inl NotTrained)"

text \<open>The comprehension \<open>[self._vocab[token] for token in encoded_tokens]\<close>.\<close>

fun vocab_lookup_all :: "VocabDict \<Rightarrow> TokenList \<Rightarrow> error + bytes list" where
  "vocab_lookup_all vocab [] = Inr []"
| "vocab_lookup_all vocab (token # rest) =
     (case dict_subscript vocab token of
        Inl e \<Rightarrow> Inl e
      | Inr b \<Rightarrow> (case vocab_lookup_all vocab rest of Inl e \<Rightarrow> Inl e | Inr bs \<Rightarrow> Inr (b # bs)))"

definition basic_decode :: "tokenizer \<Rightarrow> TokenList \<Rightarrow> error + str" where
  "basic_decode self encoded_tokens =
     (case (self_vocab self, self_merges self) of
        (Some vocab, Some merges) \<Rightarrow>
          (case vocab_lookup_all vocab encoded_tokens of
             Inl e \<Rightarrow> Inl e
           | Inr encoded_token_bytes \<Rightarrow> Inr (utf8_decode_replace (concat encoded_token_bytes)))
      | _ \<Rightarrow> Inl NotTrained)"

section \<open>Chunked Tokenizer (\<open>regex.py\<close>)\<close>

subsection \<open>The split pattern\<close>

text \<open>
  \<open>GPT4_SPLIT_PATTERN\<close> is matched by the \<open>regex\<close> library against the Unicode
  character database, which is not part of the repository. The tables the pattern reads
  are parameters of the model: the classes \<open>\p{L}\<close>, \<open>\p{N}\<close> and \<open>\s\<close>, and the
  case-insensitive comparison of a character with a letter of the pattern, used by
  \<open>(?i:...)\<close>.
\<close>

record unicode_db =
  is_letter :: "nat \<Rightarrow> bool"
  is_number :: "nat \<Rightarrow> bool"
  is_space :: "nat \<Rightarrow> bool"
  same_ignoring_case :: "nat \<Rightarrow> nat \<Rightarrow> bool"

definition is_newline :: "nat \<Rightarrow> bool" where
  "is_newline c = (c = 0x0D \<or> c = 0x0A)"

text \<open>
  Each alternative of the pattern, matched at the start of \<open>s\<close>: the length of the
  match, or \<open>None\<close>. First \<open>'(?i:[sdmt]|ll|ve|re)\<close>.
\<close>

definition match_contraction :: "unicode_db \<Rightarrow> str \<Rightarrow> nat option" where
  "match_contraction u s =
     (case s of
        q # c # rest \<Rightarrow>
          if q = 0x27 then
            (if same_ignoring_case u c 0x73 \<or> same_ignoring_case u c 0x64
                \<or> same_ignoring_case u c 0x6D \<or> same_ignoring_case u c 0x74
             then Some 2
             else
               (case rest of
                  [] \<Rightarrow> None
                | c2 # rest2 \<Rightarrow>
                    if (same_ignoring_case u c 0x6C \<and> same_ignoring_case u c2 0x6C)
                       \<or> (same_ignoring_case u c 0x76 \<and> same_ignoring_case u c2 0x65)
                       \<or> (same_ignoring_case u c 0x72 \<and> same_ignoring_case u c2 0x65)
                    then Some 3 else None))
          else None
      | _ \<Rightarrow> None)"

text \<open>
  \<open>[^\r\n\p{L}\p{N}]?+\p{L}+\<close>: the optional first character is possessive, so once
  taken it is not given back.
\<close>

definition match_letters :: "unicode_db \<Rightarrow> str \<Rightarrow> nat option" where
  "match_letters u s =
     (let k = (case s of
                 [] \<Rightarrow> 0
               | c # rest \<Rightarrow>
                   if is_newline c \<or> is_letter u c \<or> is_number u c then 0 else 1);
          n = length (takeWhile (is_letter u) (drop k s))
      in if 1 \<le> n then Some (k + n) else None)"

text \<open>\<open>\p{N}{1,3}\<close>\<close>

definition match_numbers :: "unicode_db \<Rightarrow> str \<Rightarrow> nat option" where
  "match_numbers u s =
     (let n = length (takeWhile (is_number u) (take 3 s))
      in if 1 \<le> n then Some n else None)"

text \<open>
  \<open> ?[^\s\p{L}\p{N}]++[\r\n]*\<close>: the optional space is tried first and given back
  when the rest does not match after it.
\<close>

definition is_other :: "unicode_db \<Rightarrow> nat \<Rightarrow> bool" where
  "is_other u c = (\<not> (is_space u c \<or> is_letter u c \<or> is_number u c))"

definition match_other_run :: "unicode_db \<Rightarrow> str \<Rightarrow> nat option" where
  "match_other_run u s =
     (let n = length (takeWhile (is_other u) s)
      in if 1 \<le> n then Some (n + length (takeWhile is_newline (drop n s))) else None)"

definition match_punctuation :: "unicode_db \<Rightarrow> str \<Rightarrow> nat option" where
  "match_punctuation u s =
     (case s of
        [] \<Rightarrow> None
      | c # rest \<Rightarrow>
          if c = 0x20 then
            (case match_other_run u rest of
               Some m \<Rightarrow> Some (1 + m)
             | None \<Rightarrow> match_other_run u s)
          else match_other_run u s)"

text \<open>
  \<open>\s*[\r\n]\<close>: the greedy \<open>\s*\<close> takes the whole whitespace run and gives back one
  character at a time until a newline follows.
\<close>

fun newline_after :: "str \<Rightarrow> nat \<Rightarrow> nat option" where
  "newline_after s 0 = (if 0 < length s \<and> is_newline (s ! 0) then Some 1 else None)"
| "newline_after s (Suc k) =
     (if Suc k < length s \<and> is_newline (s ! Suc k) then Some (Suc k + 1)
      else newline_after s k)"

definition match_newlines :: "unicode_db \<Rightarrow> str \<Rightarrow> nat option" where
  "match_newlines u s = newline_after s (length (takeWhile (is_space u) s))"

text \<open>
  \<open>\s+(?!\S)\<close>: the greedy \<open>\s+\<close> gives back characters, keeping at least one, until
  what follows is not a non-whitespace character.
\<close>

fun space_not_before_nonspace :: "unicode_db \<Rightarrow> str \<Rightarrow> nat \<Rightarrow> nat option" where
  "space_not_before_nonspace u s 0 = None"
| "space_not_before_nonspace u s (Suc k) =
     (if length s \<le> Suc k then Some (Suc k)
      else if is_space u (s ! Suc k) then Some (Suc k)
      else space_not_before_nonspace u s k)"

definition match_trailing_space :: "unicode_db \<Rightarrow> str \<Rightarrow> nat option" where
  "match_trailing_space u s =
     space_not_before_nonspace u s (length (takeWhile (is_space u) s))"

text \<open>\<open>\s+\<close>\<close>

definition match_space :: "unicode_db \<Rightarrow> str \<Rightarrow> nat option" where
  "match_space u s =
     (let n = length (takeWhile (is_space u) s) in if 1 \<le> n then Some n else None)"

text \<open>The alternatives are tried in the order in which the pattern lists them.\<close>

fun first_match :: "nat option list \<Rightarrow> nat option" where
  "first_match [] = None"
| "first_match (None # ms) = first_match ms"
| "first_match (Some k # ms) = Some k"

definition match_pattern :: "unicode_db \<Rightarrow> str \<Rightarrow> nat option" where
  "match_pattern u s =
     first_match [match_contraction u s, match_letters u s, match_numbers u s,
                  match_punctuation u s, match_newlines u s, match_trailing_space u s,
                  match_space u s]"

text \<open>
  \<open>re.findall\<close>: the matches from left to right, each search starting where the last
  match ended; a position where nothing matches is skipped. The pattern has no capture
  group, so each result is the matched text.
\<close>

function findall :: "unicode_db \<Rightarrow> str \<Rightarrow> str list" where
  "findall u [] = []"
| "findall u (c # rest) =
     (case match_pattern u (c # rest) of
        None \<Rightarrow> findall u rest
      | Some k \<Rightarrow>
          if k = 0 then [] # findall u rest
          else take k (c # rest) # findall u (drop k (c # rest)))"
  by pat_completeness auto
termination
  by (relation "measure (\<lambda>(u, s). length s)") auto

subsection \<open>The tokenizer\<close>

text \<open>\<open>_count_pairs\<close> of \<open>regex.py\<close>: the counts are added to the dictionary passed in.\<close>

definition regex_count_pairs :: "TokenList \<Rightarrow> PairCounts \<Rightarrow> PairCounts" where
  "regex_count_pairs tokens pair_counts = foldl count_pair pair_counts (zip tokens (drop 1 tokens))"

definition regex_bpe_step ::
  "int \<Rightarrow> int \<Rightarrow> TokenList list \<times> VocabDict \<times> Merges
     \<Rightarrow> error + TokenList list \<times> VocabDict \<times> Merges" where
  "regex_bpe_step original_vocab_size i st =
     (case st of (token_chunks, vocab, merges) \<Rightarrow>
        let pair_counts = foldl (\<lambda>pair_counts chunk. regex_count_pairs chunk pair_counts) [] token_chunks in
        (case max_by_count pair_counts of
           Inl e \<Rightarrow> Inl e
         | Inr top_pair \<Rightarrow>
             let new_index = original_vocab_size + i;
                 token_chunks' = map (\<lambda>chunk. merge chunk top_pair new_index) token_chunks;
                 merges' = dict_set merges top_pair new_index
             in (case dict_subscript vocab (fst top_pair) of
                   Inl e \<Rightarrow> Inl e
                 | Inr b0 \<Rightarrow>
                     (case dict_subscript vocab (snd top_pair) of
                        Inl e \<Rightarrow> Inl e
                      | Inr b1 \<Rightarrow>
                          Inr (token_chunks', dict_set vocab new_index (b0 @ b1), merges')))))"

fun regex_bpe_loop ::
  "int \<Rightarrow> int list \<Rightarrow> TokenList list \<times> VocabDict \<times> Merges
     \<Rightarrow> error + TokenList list \<times> VocabDict \<times> Merges" where
  "regex_bpe_loop original_vocab_size [] st = Inr st"
| "regex_bpe_loop original_vocab_size (i # is) st =
     (case regex_bpe_step original_vocab_size i st of
        Inl e \<Rightarrow> Inl e
      | Inr st' \<Rightarrow> regex_bpe_loop original_vocab_size is st')"

definition regex_byte_pair_encode ::
  "TokenList list \<Rightarrow> int \<Rightarrow> int \<Rightarrow> error + VocabDict \<times> Merges" where
  "regex_byte_pair_encode token_chunks original_vocab_size number_of_merges =
     (case regex_bpe_loop original_vocab_size (py_range number_of_merges)
             (token_chunks, base_vocab, []) of
        Inl e \<Rightarrow> Inl e
      | Inr (token_chunks', vocab, merges) \<Rightarrow> Inr (vocab, merges))"

text \<open>\<open>[list(str(chunk).encode('utf-8')) for chunk in text_chunks]\<close>\<close>

fun encode_chunks :: "str list \<Rightarrow> error + TokenList list" where
  "encode_chunks [] = Inr []"
| "encode_chunks (chunk # chunks) =
     (case utf8_encode chunk of
        Inl e \<Rightarrow> Inl e
      | Inr b \<Rightarrow>
          (case encode_chunks chunks of
             Inl e \<Rightarrow> Inl e
           | Inr bs \<Rightarrow> Inr (map int b # bs)))"

definition regex_train :: "unicode_db \<Rightarrow> tokenizer \<Rightarrow> str \<Rightarrow> int \<Rightarrow> (error + unit) \<times> tokenizer" where
  "regex_train u self text vocab_size =
     (let text_chunks = findall u text in
      case encode_chunks text_chunks of
        Inl e \<Rightarrow> (Inl e, self)
      | Inr tokens \<Rightarrow>
          let number_of_merges = vocab_size - 256
          in (case regex_byte_pair_encode tokens vocab_size number_of_merges of
                Inl e \<Rightarrow> (Inl e, self)
              | Inr (vocab, merges) \<Rightarrow>
                  (Inr (), self\<lparr>self_vocab := Some vocab, self_merges := Some merges\<rparr>)))"

text \<open>
  The loop of \<open>encode\<close> over the chunks: each chunk is encoded to bytes, the merges are
  replayed on it, and the result is appended to \<open>tokens\<close>.
\<close>

fun regex_encode_loop :: "Merges \<Rightarrow> str list \<Rightarrow> TokenList \<Rightarrow> error + TokenList" where
  "regex_encode_loop merges [] tokens = Inr tokens"
| "regex_encode_loop merges (chunk # chunks) tokens =
     (case utf8_encode chunk of
        Inl e \<Rightarrow> Inl e
      | Inr chunk_bytes \<Rightarrow>
          regex_encode_loop merges chunks (tokens @ replay_merges merges (map int chunk_bytes)))"

definition regex_encode :: "unicode_db \<Rightarrow> tokenizer \<Rightarrow> str \<Rightarrow> error + TokenList" where
  "regex_encode u self text =
     (case (self_vocab self, self_merges self) of
        (Some vocab, Some merges) \<Rightarrow> regex_encode_loop merges (findall u text) []
      | _ \<Rightarrow> Inl NotTrained)"

definition regex_decode :: "tokenizer \<Rightarrow> TokenList \<Rightarrow> error + str" where
  "regex_decode self encoded_tokens =
     (case (self_vocab self, self_merges self) of
        (Some vocab, Some merges) \<Rightarrow>
          (case vocab_lookup_all vocab encoded_tokens of
             Inl e \<Rightarrow> Inl e
           | Inr encoded_token_bytes \<Rightarrow> Inr (utf8_decode_replace (concat encoded_token_bytes)))
      | _ \<Rightarrow> Inl NotTrained)"

section \<open>Notions used in the proofs\<close>

text \<open>
  The pairs of neighbours of a token list, and the bytes a token list stands for under a
  vocabulary.
\<close>

definition adjacent :: "TokenList \<Rightarrow> TokenPair set" where
  "adjacent ts = set (zip ts (drop 1 ts))"

definition expand :: "VocabDict \<Rightarrow> TokenList \<Rightarrow> bytes" where
  "expand vocab ts = concat (map (\<lambda>t. dict_get vocab t []) ts)"

text \<open>
  The token ids handed out by the first \<open>i\<close> iterations of the training loop, and the
  invariant of that loop: the chunks are the initial chunks with the merges replayed,
  the merge table holds distinct pairs that no longer occur in any chunk, every token
  in use has a vocabulary entry, and expanding a replayed byte sequence gives the bytes
  back.
\<close>

definition learned_ids :: "int \<Rightarrow> nat \<Rightarrow> int list" where
  "learned_ids V i = map (\<lambda>j. V + int j) [0..<i]"

definition is_byte_token :: "int \<Rightarrow> bool" where
  "is_byte_token t = (0 \<le> t \<and> t < 256)"

definition bpe_inv ::
  "int \<Rightarrow> nat \<Rightarrow> TokenList list \<Rightarrow> TokenList list \<times> VocabDict \<times> Merges \<Rightarrow> bool" where
  "bpe_inv V i chunks0 st =
     (case st of (chunks, vocab, merges) \<Rightarrow>
        chunks = map (replay_merges merges) chunks0
      \<and> map snd merges = learned_ids V i
      \<and> distinct (map fst merges)
      \<and> (\<forall>q\<in>set (map fst merges).
            fst q < V + int i \<and> snd q < V + int i \<and> (\<forall>c\<in>set chunks. q \<notin> adjacent c))
      \<and> (\<forall>c\<in>set chunks. set c \<subseteq> set (map fst vocab))
      \<and> map fst vocab = map int [0..<256] @ learned_ids V i
      \<and> (\<forall>ts. list_all is_byte_token ts \<longrightarrow>
            expand vocab (replay_merges merges ts) = map nat ts))"

text \<open>The state of the Byte Tokenizer's loop, seen as a state of the Chunked Tokenizer's loop on one chunk.\<close>

definition one_chunk :: "TokenList \<times> VocabDict \<times> Merges \<Rightarrow> TokenList list \<times> VocabDict \<times> Merges" where
  "one_chunk st = (case st of (tokens, vocab, merges) \<Rightarrow> ([tokens], vocab, merges))"

text \<open>
  The Unicode tables restricted to ASCII, for running the Chunked Tokenizer on concrete
  ASCII texts: letters \<open>A-Z\<close> and \<open>a-z\<close>, digits \<open>0-9\<close>, the whitespace characters
  \<open>U+0009..U+000D\<close> and \<open>U+0020\<close>, and case folding of the ASCII letters.
\<close>

definition ascii_db :: unicode_db where
  "ascii_db =
     \<lparr>is_letter = (\<lambda>c. (0x41 \<le> c \<and> c \<le> 0x5A) \<or> (0x61 \<le> c \<and> c \<le> 0x7A)),
      is_number = (\<lambda>c. 0x30 \<le> c \<and> c \<le> 0x39),
      is_space = (\<lambda>c. c = 0x20 \<or> (0x09 \<le> c \<and> c \<le> 0x0D)),
      same_ignoring_case = (\<lambda>c x. c = x \<or> c + 0x20 = x)\<rparr>"

text \<open>
  Well-formed UTF-8, said through the encoder: a byte sequence is well formed when it is
  the encoding of a code point; a byte string starts well formed when it begins with
  such a sequence; a sequence is incomplete when more bytes can make it well formed.
  Where a byte string does not start well formed, the ill-formed span at its head is
  its longest incomplete beginning, and at least one byte.
\<close>

definition well_formed :: "bytes \<Rightarrow> bool" where
  "well_formed w = (\<exists>c. utf8_encode_char c = Inr w)"

definition starts_well_formed :: "bytes \<Rightarrow> bool" where
  "starts_well_formed bs = (\<exists>w rest. well_formed w \<and> bs = w @ rest)"

definition incomplete :: "bytes \<Rightarrow> bool" where
  "incomplete p = (\<exists>ext. ext \<noteq> [] \<and> well_formed (p @ ext))"

definition ill_formed_span :: "bytes \<Rightarrow> nat" where
  "ill_formed_span bs =
     (if 3 \<le> length bs \<and> incomplete (take 3 bs) then 3
      else if 2 \<le> length bs \<and> incomplete (take 2 bs) then 2
      else 1)"

text \<open>
  \<open>is_slice xs ys\<close>: the list \<open>xs\<close> occurs in \<open>ys\<close> as a run of neighbouring elements.
  \<open>learned_within chunks vocab\<close>: every vocabulary entry is a single byte's entry or
  holds a byte string that is a slice of one of the chunks.
\<close>

definition is_slice :: "'a list \<Rightarrow> 'a list \<Rightarrow> bool" where
  "is_slice xs ys = list_ex (\<lambda>i. take (length xs) (drop i ys) = xs) [0..<Suc (length ys)]"

definition learned_within :: "TokenList list \<Rightarrow> VocabDict \<Rightarrow> bool" where
  "learned_within chunks vocab =
     list_all (\<lambda>(t, bs). is_byte_token t \<or> list_ex (\<lambda>chunk. is_slice bs (map nat chunk)) chunks)
       vocab"

section \<open>Properties of the merge kernel\<close>

lemma merge_greedy_drop_match:
  assumes "i < length ts - 1" "fst p = ts ! i" "snd p = ts ! (i + 1)"
  shows "merge_greedy (drop i ts) p r = r # merge_greedy (drop (i + 2) ts) p r"
proof -
  from assms(1) have "i < length ts" "Suc i < length ts" by arith+
  then have d: "drop i ts = ts ! i # ts ! (i + 1) # drop (i + 2) ts"
    by (simp add: Cons_nth_drop_Suc)
  from assms(2,3) have "p = (ts ! i, ts ! (i + 1))" by (cases p) simp
  with d show ?thesis by simp
qed

lemma merge_greedy_drop_nomatch:
  assumes "i < length ts"
    and "\<not> (i < length ts - 1 \<and> fst p = ts ! i \<and> snd p = ts ! (i + 1))"
  shows "merge_greedy (drop i ts) p r = ts ! i # merge_greedy (drop (i + 1) ts) p r"
proof (cases "i < length ts - 1")
  case True
  then have "Suc i < length ts" by arith
  with assms(1) have d: "drop i ts = ts ! i # ts ! (i + 1) # drop (i + 2) ts"
    by (simp add: Cons_nth_drop_Suc)
  have d1: "drop (i + 1) ts = ts ! (i + 1) # drop (i + 2) ts"
    using \<open>Suc i < length ts\<close> by (simp add: Cons_nth_drop_Suc)
  from True assms(2) have "p \<noteq> (ts ! i, ts ! (i + 1))" by (cases p) auto
  with d d1 show ?thesis by simp
next
  case False
  with assms(1) have "length ts = Suc i" by arith
  then have "drop i ts = [ts ! i]" "drop (i + 1) ts = []"
    using assms(1) by (simp_all add: Cons_nth_drop_Suc [symmetric])
  then show ?thesis by simp
qed

lemma merge_loop_stop:
  "\<not> i < length ts \<Longrightarrow> merge_loop ts p r i acc = acc"
  by (subst merge_loop.simps) simp

lemma merge_loop_match:
  "i < length ts - 1 \<Longrightarrow> fst p = ts ! i \<Longrightarrow> snd p = ts ! (i + 1) \<Longrightarrow>
   merge_loop ts p r i acc = merge_loop ts p r (i + 2) (acc @ [r])"
  by (subst merge_loop.simps) auto

lemma merge_loop_nomatch:
  "i < length ts \<Longrightarrow> \<not> (i < length ts - 1 \<and> fst p = ts ! i \<and> snd p = ts ! (i + 1)) \<Longrightarrow>
   merge_loop ts p r i acc = merge_loop ts p r (i + 1) (acc @ [ts ! i])"
  by (subst merge_loop.simps) auto

lemma merge_loop_greedy:
  "i \<le> length ts \<Longrightarrow> merge_loop ts p r i acc = acc @ merge_greedy (drop i ts) p r"
proof (induction ts p r i acc rule: merge_loop.induct)
  case (1 ts p r i acc)
  show ?case
  proof (cases "i < length ts")
    case False
    with "1.prems" show ?thesis by (simp add: merge_loop_stop)
  next
    case True
    show ?thesis
    proof (cases "i < length ts - 1 \<and> fst p = ts ! i \<and> snd p = ts ! (i + 1)")
      case m: True
      then have le: "i + 2 \<le> length ts" by arith
      have "merge_loop ts p r i acc = merge_loop ts p r (i + 2) (acc @ [r])"
        using m by (simp add: merge_loop_match)
      also have "\<dots> = (acc @ [r]) @ merge_greedy (drop (i + 2) ts) p r"
        using "1.IH"(1) True m le by simp
      also have "\<dots> = acc @ merge_greedy (drop i ts) p r"
        using m by (simp add: merge_greedy_drop_match)
      finally show ?thesis .
    next
      case n: False
      from True have le: "i + 1 \<le> length ts" by arith
      have c: "\<not> (if i < length ts - 1 then fst p = ts ! i \<and> snd p = ts ! (i + 1) else False)"
        using n by (simp only: if_True if_False simp_thms split: if_splits) blast
      have "merge_loop ts p r i acc = merge_loop ts p r (i + 1) (acc @ [ts ! i])"
        using True n by (rule merge_loop_nomatch)
      also have "\<dots> = (acc @ [ts ! i]) @ merge_greedy (drop (i + 1) ts) p r"
        using "1.IH"(2) [OF True c le] .
      also have "\<dots> = acc @ merge_greedy (drop i ts) p r"
        using merge_greedy_drop_nomatch [OF True n] by simp
      finally show ?thesis .
    qed
  qed
qed

lemma merge_eq_greedy: "merge ts p r = merge_greedy ts p r"
  by (simp add: merge_def merge_loop_greedy)

subsection \<open>Dictionaries\<close>

lemma map_of_dict_set: "map_of (dict_set d k v) k' = (if k' = k then Some v else map_of d k')"
  by (induction d) auto

lemma map_fst_dict_set:
  "map fst (dict_set d k v) = (if k \<in> fst ` set d then map fst d else map fst d @ [k])"
  by (induction d) (force simp: image_iff)+

lemma keys_dict_set: "fst ` set (dict_set d k v) = insert k (fst ` set d)"
proof -
  have "set (map fst (dict_set d k v)) = insert k (set (map fst d))"
    unfolding map_fst_dict_set by auto
  then show ?thesis by simp
qed

lemma dict_set_fresh: "k \<notin> fst ` set d \<Longrightarrow> dict_set d k v = d @ [(k, v)]"
  by (induction d) auto

lemma dict_get_dict_set: "dict_get (dict_set d k v) k' dflt = (if k' = k then v else dict_get d k' dflt)"
  by (simp add: dict_get_def map_of_dict_set)

lemma dict_subscript_present:
  "k \<in> fst ` set d \<Longrightarrow> dict_subscript d k = Inr (dict_get d k dflt)"
  by (auto simp: dict_subscript_def dict_get_def map_of_eq_None_iff split: option.splits)

lemma dict_subscript_absent:
  "k \<notin> fst ` set d \<Longrightarrow> dict_subscript d k = Inl (KeyError k)"
  by (auto simp: dict_subscript_def map_of_eq_None_iff split: option.splits)

lemma keys_count_pairs: "fst ` set (foldl count_pair d ps) = fst ` set d \<union> set ps"
  by (induction ps arbitrary: d) (auto simp: count_pair_def keys_dict_set)

lemma max_loop_mem: "max_loop best d \<in> insert best (set d)"
  by (induction d arbitrary: best) (auto split: if_splits)

lemma max_by_count_mem: "max_by_count d = Inr p \<Longrightarrow> p \<in> fst ` set d"
proof (cases d)
  case Nil
  assume "max_by_count d = Inr p"
  with Nil show ?thesis by (simp add: max_by_count_def)
next
  case (Cons kv d')
  assume "max_by_count d = Inr p"
  with Cons have "p = fst (max_loop kv d')" by (simp add: max_by_count_def)
  moreover have "max_loop kv d' \<in> set d" using max_loop_mem [of kv d'] Cons by simp
  ultimately show ?thesis by (metis image_eqI)
qed

lemma max_by_count_error: "(max_by_count d = Inl e) = (d = [] \<and> e = ValueError)"
  by (cases d) (auto simp: max_by_count_def)

subsection \<open>Merging\<close>

lemma adjacent_simps [simp]:
  "adjacent [] = {}" "adjacent [a] = {}"
  "adjacent (a # b # xs) = insert (a, b) (adjacent (b # xs))"
  by (simp_all add: adjacent_def)

lemma set_merge_greedy: "set (merge_greedy ts p r) \<subseteq> insert r (set ts)"
  by (induction ts p r rule: merge_greedy.induct) auto

lemma merge_greedy_head:
  "merge_greedy (b # xs) p r = y # ys \<Longrightarrow> y = b \<or> y = r"
  by (cases xs) (auto split: if_splits)

lemma merge_greedy_nonempty: "merge_greedy (b # xs) p r \<noteq> []"
  by (cases xs) auto

lemma adjacent_Cons: "adjacent (a # ys) \<subseteq> (case ys of [] \<Rightarrow> {} | y # _ \<Rightarrow> {(a, y)}) \<union> adjacent ys"
  by (cases ys) auto

lemma adjacent_merge_greedy:
  "adjacent (merge_greedy ts p r) \<subseteq> (adjacent ts - {p}) \<union> {q. fst q = r \<or> snd q = r}"
proof (induction ts p r rule: merge_greedy.induct)
  case (1 a b xs p r)
  show ?case
  proof (cases "p = (a, b)")
    case True
    have "adjacent (r # merge_greedy xs p r) \<subseteq> {q. fst q = r \<or> snd q = r} \<union> adjacent (merge_greedy xs p r)"
      using adjacent_Cons [of r "merge_greedy xs p r"] by (auto split: list.splits)
    moreover have "adjacent xs \<subseteq> adjacent (a # b # xs)"
      using adjacent_Cons [of b xs] by (cases xs) auto
    ultimately show ?thesis using True "1.IH"(1) [OF True] by auto
  next
    case False
    obtain y ys where m: "merge_greedy (b # xs) p r = y # ys"
      using merge_greedy_nonempty [of b xs p r] by (cases "merge_greedy (b # xs) p r") auto
    then have y: "y = b \<or> y = r" by (rule merge_greedy_head)
    have "adjacent (a # y # ys) = insert (a, y) (adjacent (y # ys))" by simp
    with y False m "1.IH"(2) [OF False] show ?thesis by auto
  qed
qed simp_all

lemma expand_simps [simp]:
  "expand vocab [] = []"
  "expand vocab (t # ts) = dict_get vocab t [] @ expand vocab ts"
  "expand vocab (xs @ ys) = expand vocab xs @ expand vocab ys"
  by (simp_all add: expand_def)

lemma expand_merge_greedy:
  assumes "dict_get vocab' r [] = dict_get vocab (fst p) [] @ dict_get vocab (snd p) []"
    and "\<And>t. t \<noteq> r \<Longrightarrow> dict_get vocab' t [] = dict_get vocab t []"
  shows "r \<notin> set ts \<Longrightarrow> expand vocab' (merge_greedy ts p r) = expand vocab ts"
  using assms by (induction ts p r rule: merge_greedy.induct) auto

lemma replay_merges_snoc:
  "replay_merges (merges @ [(p, r)]) ts = merge (replay_merges merges ts) p r"
  by (simp add: replay_merges_def)

lemma set_replay_merges: "set (replay_merges merges ts) \<subseteq> set ts \<union> snd ` set merges"
proof (induction merges arbitrary: ts rule: rev_induct)
  case Nil
  show ?case by (simp add: replay_merges_def)
next
  case (snoc x merges)
  obtain p r where x: "x = (p, r)" by (cases x)
  show ?case
    using snoc [of ts] set_merge_greedy [of "replay_merges merges ts" p r]
    by (auto simp: x replay_merges_snoc merge_eq_greedy)
qed

subsection \<open>UTF-8 round trip\<close>

lemma div_4096: "(c::nat) div 4096 = c div 64 div 64"
  by (simp add: div_mult2_eq [symmetric])

lemma div_262144: "(c::nat) div 262144 = c div 4096 div 64"
  by (simp add: div_mult2_eq [symmetric])

lemma digits3_aux: "x * 64 + d = c \<Longrightarrow> y * 64 + b = x \<Longrightarrow> (c::nat) = y * 4096 + b * 64 + d"
  by auto

lemma digits4_aux:
  "c = y * 4096 + b * 64 + d \<Longrightarrow> z * 64 + a = y \<Longrightarrow> (c::nat) = z * 262144 + a * 4096 + b * 64 + d"
  by auto

lemma digits3: "(c::nat) = (c div 4096) * 4096 + (c div 64 mod 64) * 64 + c mod 64"
  unfolding div_4096
  by (rule digits3_aux [OF div_mult_mod_eq div_mult_mod_eq])

lemma digits4:
  "(c::nat) = (c div 262144) * 262144 + (c div 4096 mod 64) * 4096 + (c div 64 mod 64) * 64 + c mod 64"
  unfolding div_262144
  by (rule digits4_aux [OF digits3 div_mult_mod_eq])

lemma utf8_decode_1:
  "c < 0x80 \<Longrightarrow> utf8_decode_replace (c # rest) = c # utf8_decode_replace rest"
  by simp

lemma utf8_decode_2:
  assumes "0x80 \<le> c" "c < 0x800" "c = a * 64 + b" "b < 64"
  shows "utf8_decode_replace ([0xC0 + a, 0x80 + b] @ rest) = c # utf8_decode_replace rest"
proof -
  define ch where "ch = 0xC0 + a"
  define ch2 where "ch2 = 0x80 + b"
  have r: "\<not> ch < 0x80" "\<not> ch < 0xC2" "ch < 0xE0"
    using assms by (simp_all add: ch_def)
  have c2: "is_continuation_byte ch2"
    using assms by (simp add: ch2_def is_continuation_byte_def)
  have v: "(ch - 0xC0) * 64 + (ch2 - 0x80) = c"
    using assms by (simp add: ch_def ch2_def)
  show ?thesis
    unfolding ch_def [symmetric] ch2_def [symmetric]
    using r c2 v by simp
qed

lemma utf8_decode_3:
  assumes "0x800 \<le> c" "c < 0x10000" "\<not> (0xD800 \<le> c \<and> c \<le> 0xDFFF)"
    and "c = a * 4096 + b * 64 + d" "b < 64" "d < 64"
  shows "utf8_decode_replace ([0xE0 + a, 0x80 + b, 0x80 + d] @ rest) = c # utf8_decode_replace rest"
proof -
  define ch where "ch = 0xE0 + a"
  define ch2 where "ch2 = 0x80 + b"
  define ch3 where "ch3 = 0x80 + d"
  have r: "\<not> ch < 0x80" "\<not> ch < 0xC2" "\<not> ch < 0xE0" "ch < 0xF0"
    using assms by (simp_all add: ch_def)
  have c2: "is_continuation_byte ch2"
    using assms by (simp add: ch2_def is_continuation_byte_def)
  have c3: "is_continuation_byte ch3"
    using assms by (simp add: ch3_def is_continuation_byte_def)
  have o1: "ch2 < 0xA0 \<Longrightarrow> ch \<noteq> 0xE0"
    using assms unfolding ch_def ch2_def by linarith
  have o2: "\<not> ch2 < 0xA0 \<Longrightarrow> ch \<noteq> 0xED"
    using assms unfolding ch_def ch2_def by linarith
  have o: "\<not> (if ch2 < 0xA0 then ch = 0xE0 else ch = 0xED)"
    using o1 o2 by (simp only: split: if_splits) blast
  have v: "(ch - 0xE0) * 4096 + (ch2 - 0x80) * 64 + (ch3 - 0x80) = c"
    using assms unfolding ch_def ch2_def ch3_def by simp
  show ?thesis
    unfolding ch_def [symmetric] ch2_def [symmetric] ch3_def [symmetric]
    using r c2 c3 o v by simp
qed


lemma utf8_decode_4:
  assumes "0x10000 \<le> c" "c < 0x110000"
    and "c = a * 262144 + b * 4096 + d * 64 + e" "b < 64" "d < 64" "e < 64"
  shows "utf8_decode_replace ([0xF0 + a, 0x80 + b, 0x80 + d, 0x80 + e] @ rest)
           = c # utf8_decode_replace rest"
proof -
  define ch where "ch = 0xF0 + a"
  define ch2 where "ch2 = 0x80 + b"
  define ch3 where "ch3 = 0x80 + d"
  define ch4 where "ch4 = 0x80 + e"
  have r: "\<not> ch < 0x80" "\<not> ch < 0xC2" "\<not> ch < 0xE0" "\<not> ch < 0xF0" "ch < 0xF5"
    using assms by (simp_all add: ch_def)
  have c2: "is_continuation_byte ch2"
    using assms by (simp add: ch2_def is_continuation_byte_def)
  have c3: "is_continuation_byte ch3"
    using assms by (simp add: ch3_def is_continuation_byte_def)
  have c4: "is_continuation_byte ch4"
    using assms by (simp add: ch4_def is_continuation_byte_def)
  have o1: "ch2 < 0x90 \<Longrightarrow> ch \<noteq> 0xF0"
    using assms unfolding ch_def ch2_def by linarith
  have o2: "\<not> ch2 < 0x90 \<Longrightarrow> ch \<noteq> 0xF4"
    using assms unfolding ch_def ch2_def by linarith
  have o: "\<not> (if ch2 < 0x90 then ch = 0xF0 else ch = 0xF4)"
    using o1 o2 by (simp only: split: if_splits) blast
  have v: "(ch - 0xF0) * 262144 + (ch2 - 0x80) * 4096 + (ch3 - 0x80) * 64 + (ch4 - 0x80) = c"
    using assms unfolding ch_def ch2_def ch3_def ch4_def by simp
  show ?thesis
    unfolding ch_def [symmetric] ch2_def [symmetric] ch3_def [symmetric] ch4_def [symmetric]
    using r c2 c3 c4 o v by simp
qed

lemma utf8_encode_char_decode:
  assumes "utf8_encode_char c = Inr b"
  shows "utf8_decode_replace (b @ rest) = c # utf8_decode_replace rest"
proof -
  consider (one) "c < 0x80" | (two) "0x80 \<le> c" "c < 0x800"
    | (three) "0x800 \<le> c" "c < 0x10000" | (four) "0x10000 \<le> c" "c < 0x110000"
    | (none) "0x110000 \<le> c"
    by linarith
  then show ?thesis
  proof cases
    case one
    with assms have "b = [c]" by (simp add: utf8_encode_char_def)
    with one show ?thesis by (simp del: utf8_decode_replace.simps add: utf8_decode_1)
  next
    case two
    with assms have b: "b = [0xC0 + c div 64, 0x80 + c mod 64]"
      by (simp add: utf8_encode_char_def)
    have "c = c div 64 * 64 + c mod 64" "c mod 64 < 64" by simp_all
    from utf8_decode_2 [OF two this] b show ?thesis by simp
  next
    case three
    with assms have s: "\<not> (0xD800 \<le> c \<and> c \<le> 0xDFFF)"
      and b: "b = [0xE0 + c div 4096, 0x80 + (c div 64) mod 64, 0x80 + c mod 64]"
      by (simp_all add: utf8_encode_char_def split: if_splits)
    have "c div 64 mod 64 < 64" "c mod 64 < 64" by simp_all
    from utf8_decode_3 [OF three s digits3 this] b show ?thesis by simp
  next
    case four
    with assms have b: "b = [0xF0 + c div 262144, 0x80 + (c div 4096) mod 64,
        0x80 + (c div 64) mod 64, 0x80 + c mod 64]"
      by (simp add: utf8_encode_char_def)
    have "c div 4096 mod 64 < 64" "c div 64 mod 64 < 64" "c mod 64 < 64" by simp_all
    from utf8_decode_4 [OF four digits4 this] b show ?thesis by simp
  next
    case none
    with assms show ?thesis by (simp add: utf8_encode_char_def)
  qed
qed

lemma utf8_encode_char_range:
  "utf8_encode_char c = Inr b \<Longrightarrow> x \<in> set b \<Longrightarrow> x < 256"
  unfolding utf8_encode_char_def
  by (auto split: if_splits)

lemma utf8_encode_char_ok:
  "(\<exists>b. utf8_encode_char c = Inr b) = (c < 0x110000 \<and> \<not> (0xD800 \<le> c \<and> c \<le> 0xDFFF))"
  unfolding utf8_encode_char_def by auto

lemma utf8_encode_char_error:
  "utf8_encode_char c = Inl e \<Longrightarrow> e = UnicodeEncodeError"
  unfolding utf8_encode_char_def by (auto split: if_splits)

declare utf8_decode_replace.simps(2) [simp del]

lemma utf8_encode_decode:
  "utf8_encode s = Inr b \<Longrightarrow> utf8_decode_replace (b @ rest) = s @ utf8_decode_replace rest"
proof (induction s arbitrary: b)
  case Nil
  then show ?case by simp
next
  case (Cons c cs)
  from Cons.prems obtain b1 b2 where c: "utf8_encode_char c = Inr b1"
    and cs: "utf8_encode cs = Inr b2" and b: "b = b1 @ b2"
    by (auto split: sum.splits)
  have "utf8_decode_replace ((b1 @ b2) @ rest) = c # utf8_decode_replace (b2 @ rest)"
    using utf8_encode_char_decode [OF c, of "b2 @ rest"] by simp
  with Cons.IH [OF cs] b show ?case by simp
qed

lemma utf8_encode_range:
  "utf8_encode s = Inr b \<Longrightarrow> x \<in> set b \<Longrightarrow> x < 256"
proof (induction s arbitrary: b)
  case Nil
  then show ?case by simp
next
  case (Cons c cs)
  from Cons.prems(1) obtain b1 b2 where c: "utf8_encode_char c = Inr b1"
    and cs: "utf8_encode cs = Inr b2" and b: "b = b1 @ b2"
    by (auto split: sum.splits)
  with Cons.prems(2) Cons.IH [OF cs] utf8_encode_char_range [OF c] show ?case by auto
qed

lemma utf8_encode_append:
  "utf8_encode (s @ t) =
     (case utf8_encode s of
        Inl e \<Rightarrow> Inl e
      | Inr a \<Rightarrow> (case utf8_encode t of Inl e \<Rightarrow> Inl e | Inr b \<Rightarrow> Inr (a @ b)))"
  by (induction s) (auto split: sum.splits)

lemma utf8_encode_error: "utf8_encode s = Inl e \<Longrightarrow> e = UnicodeEncodeError"
  by (induction s) (auto split: sum.splits dest: utf8_encode_char_error)

subsection \<open>The split pattern covers every character\<close>

lemma first_match_Some: "first_match ms = Some k \<Longrightarrow> Some k \<in> set ms"
  by (induction ms rule: first_match.induct) auto

lemma first_match_None: "first_match ms = None \<Longrightarrow> m \<in> set ms \<Longrightarrow> m = None"
  by (induction ms rule: first_match.induct) auto

lemma newline_after_pos: "newline_after s n = Some k \<Longrightarrow> 0 < k"
  by (induction n) (auto split: if_splits)

lemma space_not_before_nonspace_pos: "space_not_before_nonspace u s n = Some k \<Longrightarrow> 0 < k"
  by (induction n) (auto split: if_splits)

lemma match_other_run_pos: "match_other_run u s = Some k \<Longrightarrow> 0 < k"
  by (auto simp: match_other_run_def Let_def split: if_splits)

lemma match_pattern_pos:
  assumes "match_pattern u s = Some k"
  shows "0 < k"
proof -
  from assms have "Some k \<in> {match_contraction u s, match_letters u s, match_numbers u s,
      match_punctuation u s, match_newlines u s, match_trailing_space u s, match_space u s}"
    unfolding match_pattern_def by (auto dest!: first_match_Some)
  then consider "match_contraction u s = Some k" | "match_letters u s = Some k"
    | "match_numbers u s = Some k" | "match_punctuation u s = Some k"
    | "match_newlines u s = Some k" | "match_trailing_space u s = Some k"
    | "match_space u s = Some k"
    by auto
  then show ?thesis
  proof cases
    case 1
    then show ?thesis
      by (auto simp: match_contraction_def split: list.splits if_splits)
  next
    case 2
    then show ?thesis
      by (auto simp: match_letters_def Let_def split: if_splits)
  next
    case 3
    then show ?thesis
      by (auto simp: match_numbers_def Let_def split: if_splits)
  next
    case 4
    then show ?thesis
      by (auto simp: match_punctuation_def split: list.splits if_splits option.splits
          dest: match_other_run_pos)
  next
    case 5
    then show ?thesis
      by (auto simp: match_newlines_def dest: newline_after_pos)
  next
    case 6
    then show ?thesis
      by (auto simp: match_trailing_space_def dest: space_not_before_nonspace_pos)
  next
    case 7
    then show ?thesis
      by (auto simp: match_space_def Let_def split: if_splits)
  qed
qed

lemma match_other_run_Some: "is_other u c \<Longrightarrow> match_other_run u (c # rest) \<noteq> None"
  by (simp add: match_other_run_def Let_def)

lemma match_pattern_total: "match_pattern u (c # rest) \<noteq> None"
proof
  assume n: "match_pattern u (c # rest) = None"
  have l: "match_letters u (c # rest) = None"
    and d: "match_numbers u (c # rest) = None"
    and p: "match_punctuation u (c # rest) = None"
    and w: "match_space u (c # rest) = None"
    using n unfolding match_pattern_def by (auto dest: first_match_None)
  from l have nl: "\<not> is_letter u c"
    by (auto simp: match_letters_def Let_def split: if_splits)
  from d have nd: "\<not> is_number u c"
    by (auto simp: match_numbers_def Let_def split: if_splits)
  from w have nw: "\<not> is_space u c"
    by (auto simp: match_space_def Let_def split: if_splits)
  from nl nd nw have "is_other u c" by (simp add: is_other_def)
  then have "match_other_run u (c # rest) \<noteq> None" by (rule match_other_run_Some)
  with p show False
    by (auto simp: match_punctuation_def split: if_splits option.splits)
qed

lemma concat_findall: "concat (findall u s) = s"
proof (induction u s rule: findall.induct)
  case (1 u)
  show ?case by simp
next
  case (2 u c rest)
  obtain k where k: "match_pattern u (c # rest) = Some k"
    using match_pattern_total [of u c rest] by auto
  then have "0 < k" by (rule match_pattern_pos)
  with k "2.IH"(3) [of k] show ?case by simp
qed

lemma encode_chunks_concat:
  "utf8_encode (concat chunks) = Inr b \<Longrightarrow>
   \<exists>bs. encode_chunks chunks = Inr bs \<and> concat bs = map int b"
proof (induction chunks arbitrary: b)
  case Nil
  then show ?case by simp
next
  case (Cons c cs)
  from Cons.prems obtain b1 b2 where c: "utf8_encode c = Inr b1"
    and cs: "utf8_encode (concat cs) = Inr b2" and b: "b = b1 @ b2"
    by (auto simp: utf8_encode_append split: sum.splits)
  from Cons.IH [OF cs] obtain bs where "encode_chunks cs = Inr bs" "concat bs = map int b2"
    by auto
  with c b show ?case by simp
qed

lemma encode_chunks_findall:
  "utf8_encode text = Inr b \<Longrightarrow>
   \<exists>bs. encode_chunks (findall u text) = Inr bs \<and> concat bs = map int b"
  by (rule encode_chunks_concat) (simp add: concat_findall)

lemma encode_chunks_Inr:
  "encode_chunks chunks = Inr bs \<Longrightarrow>
   \<exists>b. utf8_encode (concat chunks) = Inr b \<and> concat bs = map int b"
proof (induction chunks arbitrary: bs)
  case Nil
  then show ?case by simp
next
  case (Cons c cs)
  from Cons.prems obtain b1 bs' where c: "utf8_encode c = Inr b1"
    and cs: "encode_chunks cs = Inr bs'" and bs: "bs = map int b1 # bs'"
    by (auto split: sum.splits)
  from Cons.IH [OF cs] obtain b2 where "utf8_encode (concat cs) = Inr b2" "concat bs' = map int b2"
    by auto
  with c bs show ?case by (simp add: utf8_encode_append)
qed

lemma encode_chunks_error: "encode_chunks chunks = Inl e \<Longrightarrow> e = UnicodeEncodeError"
  by (induction chunks) (auto split: sum.splits dest: utf8_encode_error)

subsection \<open>The base vocabulary\<close>

lemma keys_base_vocab: "map fst base_vocab = map int [0..<256]"
  by (simp add: base_vocab_def comp_def)

lemma map_of_base_vocab:
  "map_of base_vocab t = (if is_byte_token t then Some [nat t] else None)"
proof (cases "is_byte_token t")
  case True
  then have "(t, [nat t]) \<in> set base_vocab"
    unfolding base_vocab_def is_byte_token_def
    by (auto simp: image_iff intro!: bexI [of _ "nat t"])
  moreover have "distinct (map fst base_vocab)"
    by (simp add: keys_base_vocab distinct_map inj_on_def)
  ultimately show ?thesis using True by simp
next
  case False
  then have "t \<notin> fst ` set base_vocab"
    unfolding base_vocab_def is_byte_token_def by (auto simp: image_iff)
  with False show ?thesis by (simp add: map_of_eq_None_iff)
qed

lemma dict_get_base_vocab: "is_byte_token t \<Longrightarrow> dict_get base_vocab t [] = [nat t]"
  by (simp add: dict_get_def map_of_base_vocab)

lemma expand_base_vocab: "list_all is_byte_token ts \<Longrightarrow> expand base_vocab ts = map nat ts"
  by (induction ts) (simp_all add: dict_get_base_vocab)

lemma replay_merges_Nil [simp]: "replay_merges [] ts = ts"
  by (simp add: replay_merges_def)

lemma length_base_vocab: "length base_vocab = 256"
  by (simp add: base_vocab_def)

subsection \<open>Counting pairs\<close>

lemma adjacent_members: "(a, b) \<in> adjacent ts \<Longrightarrow> a \<in> set ts \<and> b \<in> set ts"
  unfolding adjacent_def by (auto dest: set_zip_leftD set_zip_rightD in_set_dropD)

lemma keys_regex_count_pairs:
  "fst ` set (regex_count_pairs tokens d) = fst ` set d \<union> adjacent tokens"
  by (simp add: regex_count_pairs_def keys_count_pairs adjacent_def)

lemma keys_count_all_chunks:
  "fst ` set (foldl (\<lambda>pair_counts chunk. regex_count_pairs chunk pair_counts) d chunks)
     = fst ` set d \<union> (\<Union>c\<in>set chunks. adjacent c)"
  by (induction chunks arbitrary: d) (auto simp: keys_regex_count_pairs)

lemma adjacent_empty_iff: "(adjacent ts = {}) = (length ts < 2)"
proof (cases ts)
  case Nil
  then show ?thesis by simp
next
  case (Cons a xs)
  then show ?thesis by (cases xs) auto
qed

lemma py_range_pos: "0 < n \<Longrightarrow> py_range n = 0 # map int [1..<nat n]"
  by (simp add: py_range_def upt_conv_Cons)

lemma py_range_nonpos: "n \<le> 0 \<Longrightarrow> py_range n = []"
  by (simp add: py_range_def)

subsection \<open>The training loop keeps its invariant\<close>

lemma learned_ids_Suc: "learned_ids V (Suc i) = learned_ids V i @ [V + int i]"
  by (simp add: learned_ids_def)

lemma learned_ids_bound: "t \<in> set (learned_ids V i) \<Longrightarrow> V \<le> t \<and> t < V + int i"
  by (auto simp: learned_ids_def)

lemma regex_bpe_step_cases:
  assumes "regex_bpe_step V i (chunks, vocab, merges) = r"
  obtains (no_pair) "(\<Union>c\<in>set chunks. adjacent c) = {}" "r = Inl ValueError"
  | (step) p where "p \<in> (\<Union>c\<in>set chunks. adjacent c)"
      "r = (case dict_subscript vocab (fst p) of
              Inl e \<Rightarrow> Inl e
            | Inr b0 \<Rightarrow>
                (case dict_subscript vocab (snd p) of
                   Inl e \<Rightarrow> Inl e
                 | Inr b1 \<Rightarrow>
                     Inr (map (\<lambda>chunk. merge chunk p (V + i)) chunks,
                          dict_set vocab (V + i) (b0 @ b1), dict_set merges p (V + i))))"
proof -
  define pc where "pc = foldl (\<lambda>pair_counts chunk. regex_count_pairs chunk pair_counts) [] chunks"
  have keys: "fst ` set pc = (\<Union>c\<in>set chunks. adjacent c)"
    unfolding pc_def by (simp add: keys_count_all_chunks)
  show thesis
  proof (cases "max_by_count pc")
    case (Inl e)
    then have "pc = []" "e = ValueError" by (simp_all add: max_by_count_error)
    with keys Inl assms show thesis
      by (intro no_pair) (auto simp: regex_bpe_step_def pc_def [symmetric])
  next
    case (Inr p)
    then have "p \<in> fst ` set pc" by (rule max_by_count_mem)
    with keys have "p \<in> (\<Union>c\<in>set chunks. adjacent c)" by simp
    then show thesis
      using Inr assms
      by (intro step [of p]) (auto simp: regex_bpe_step_def pc_def [symmetric] Let_def)
  qed
qed


lemma bpe_inv_step:
  assumes V: "256 \<le> V"
    and inv: "bpe_inv V i chunks0 (chunks, vocab, merges)"
    and step: "regex_bpe_step V (int i) (chunks, vocab, merges) = Inr st'"
  shows "bpe_inv V (Suc i) chunks0 st'"
proof -
  define n where "n = V + int i"
  from inv have chunks: "chunks = map (replay_merges merges) chunks0"
    and ids: "map snd merges = learned_ids V i"
    and dist: "distinct (map fst merges)"
    and old: "\<And>q. q \<in> set (map fst merges) \<Longrightarrow>
                 fst q < n \<and> snd q < n \<and> (\<forall>c\<in>set chunks. q \<notin> adjacent c)"
    and toks: "\<And>c. c \<in> set chunks \<Longrightarrow> set c \<subseteq> set (map fst vocab)"
    and keys: "map fst vocab = map int [0..<256] @ learned_ids V i"
    and exp: "\<And>ts. list_all is_byte_token ts \<Longrightarrow>
                 expand vocab (replay_merges merges ts) = map nat ts"
    unfolding bpe_inv_def prod.case n_def by blast+
  have key_bound: "t < n" if "t \<in> set (map fst vocab)" for t
    using that V learned_ids_bound [of t V i] unfolding keys n_def by auto
  have n_fresh: "n \<notin> fst ` set vocab"
    using key_bound [of n] by auto
  from step obtain p where p: "p \<in> (\<Union>c\<in>set chunks. adjacent c)"
    and r: "Inr st' = (case dict_subscript vocab (fst p) of
              Inl e \<Rightarrow> Inl e
            | Inr b0 \<Rightarrow>
                (case dict_subscript vocab (snd p) of
                   Inl e \<Rightarrow> Inl e
                 | Inr b1 \<Rightarrow>
                     Inr (map (\<lambda>chunk. merge chunk p n) chunks,
                          dict_set vocab n (b0 @ b1), dict_set merges p n)))"
    unfolding n_def by (cases rule: regex_bpe_step_cases) auto
  from p obtain c where c: "c \<in> set chunks" "p \<in> adjacent c" by auto
  then have "fst p \<in> set c" "snd p \<in> set c"
    using adjacent_members [of "fst p" "snd p" c] by simp_all
  with toks [OF c(1)] have pk: "fst p \<in> fst ` set vocab" "snd p \<in> fst ` set vocab"
    by auto
  then have p_bound: "fst p < n" "snd p < n"
    using key_bound by simp_all
  have p_new: "p \<notin> fst ` set merges"
    using old [of p] c by auto
  define b where "b = dict_get vocab (fst p) [] @ dict_get vocab (snd p) []"
  define vocab' where "vocab' = dict_set vocab n b"
  define merges' where "merges' = merges @ [(p, n)]"
  have st': "st' = (map (\<lambda>chunk. merge chunk p n) chunks, vocab', merges')"
    using r pk p_new
    by (simp add: dict_subscript_present [where dflt = "[]"] b_def vocab'_def merges'_def
        dict_set_fresh)
  have replay': "replay_merges merges' ts = merge (replay_merges merges ts) p n" for ts
    unfolding merges'_def by (rule replay_merges_snoc)
  have 1: "map (\<lambda>chunk. merge chunk p n) chunks = map (replay_merges merges') chunks0"
    unfolding chunks by (simp add: replay')
  have 2: "map snd merges' = learned_ids V (Suc i)"
    by (simp add: merges'_def ids learned_ids_Suc n_def)
  have 3: "distinct (map fst merges')"
    using dist p_new by (simp add: merges'_def)
  have 4: "fst q < V + int (Suc i) \<and> snd q < V + int (Suc i)
           \<and> (\<forall>c'\<in>set (map (\<lambda>chunk. merge chunk p n) chunks). q \<notin> adjacent c')"
    if q: "q \<in> set (map fst merges')" for q
  proof -
    have qb: "fst q < n \<and> snd q < n"
      using q old [of q] p_bound by (auto simp: merges'_def)
    have "q \<notin> adjacent (merge c' p n)" if c': "c' \<in> set chunks" for c'
    proof
      assume "q \<in> adjacent (merge c' p n)"
      then have "q \<in> adjacent c' - {p} \<or> fst q = n \<or> snd q = n"
        using adjacent_merge_greedy [of c' p n] by (auto simp: merge_eq_greedy)
      with qb have "q \<in> adjacent c'" "q \<noteq> p" by auto
      with q old [of q] c' show False by (auto simp: merges'_def)
    qed
    with qb show ?thesis by (auto simp: n_def)
  qed
  have keys': "map fst vocab' = map int [0..<256] @ learned_ids V (Suc i)"
    using n_fresh by (simp add: vocab'_def map_fst_dict_set keys learned_ids_Suc n_def)
  have 5: "set c' \<subseteq> set (map fst vocab')"
    if "c' \<in> set (map (\<lambda>chunk. merge chunk p n) chunks)" for c'
  proof -
    from that obtain c0 where c0: "c0 \<in> set chunks" "c' = merge c0 p n" by auto
    have "set c' \<subseteq> insert n (set c0)"
      unfolding c0(2) merge_eq_greedy by (rule set_merge_greedy)
    moreover have "set (map fst vocab') = insert n (set (map fst vocab))"
      unfolding keys' keys by (auto simp: learned_ids_Suc n_def)
    ultimately show ?thesis using toks [OF c0(1)] by auto
  qed
  have 7: "expand vocab' (replay_merges merges' ts) = map nat ts"
    if ts: "list_all is_byte_token ts" for ts
  proof -
    define xs where "xs = replay_merges merges ts"
    have "set xs \<subseteq> set ts \<union> set (learned_ids V i)"
      using set_replay_merges [of merges ts] ids [symmetric] unfolding xs_def by simp
    moreover have "t < n" if "t \<in> set ts" for t
      using ts that V unfolding n_def list_all_iff is_byte_token_def by fastforce
    moreover have "t < n" if "t \<in> set (learned_ids V i)" for t
      using learned_ids_bound [OF that] by (simp add: n_def)
    ultimately have "n \<notin> set xs" by fastforce
    moreover have "dict_get vocab' n [] = dict_get vocab (fst p) [] @ dict_get vocab (snd p) []"
      by (simp add: vocab'_def dict_get_dict_set b_def)
    moreover have "dict_get vocab' t [] = dict_get vocab t []" if "t \<noteq> n" for t
      using that by (simp add: vocab'_def dict_get_dict_set)
    ultimately have "expand vocab' (merge_greedy xs p n) = expand vocab xs"
      by (intro expand_merge_greedy [where vocab = vocab]) auto
    then show ?thesis
      using exp [OF ts] by (simp add: replay' merge_eq_greedy xs_def)
  qed
  show ?thesis
    unfolding st' bpe_inv_def prod.case
    using 1 2 3 4 5 keys' 7 by blast
qed

lemma bpe_inv_init:
  assumes "\<And>c. c \<in> set chunks0 \<Longrightarrow> list_all is_byte_token c"
  shows "bpe_inv V 0 chunks0 (chunks0, base_vocab, [])"
proof -
  have "set c \<subseteq> set (map fst base_vocab)" if "c \<in> set chunks0" for c
  proof
    fix t assume "t \<in> set c"
    with assms [OF that] have "is_byte_token t" by (simp add: list_all_iff)
    then have "t = int (nat t)" "nat t < 256" by (simp_all add: is_byte_token_def nat_less_iff)
    then show "t \<in> set (map fst base_vocab)"
      unfolding keys_base_vocab by (metis atLeast0LessThan imageI lessThan_iff set_map set_upt)
  qed
  then show ?thesis
    unfolding bpe_inv_def prod.case
    by (simp add: learned_ids_def keys_base_vocab expand_base_vocab map_idI)
qed

lemma bpe_inv_loop:
  assumes "256 \<le> V"
  shows "bpe_inv V i chunks0 st \<Longrightarrow> regex_bpe_loop V (map int [i..<i + k]) st = Inr st' \<Longrightarrow>
         bpe_inv V (i + k) chunks0 st'"
proof (induction k arbitrary: i st)
  case 0
  then show ?case by simp
next
  case (Suc k)
  have u: "[i..<i + Suc k] = i # [Suc i..<Suc i + k]"
    by (simp add: upt_conv_Cons)
  obtain chunks vocab merges where st: "st = (chunks, vocab, merges)"
    by (cases st)
  from Suc.prems(2) obtain st1 where s1: "regex_bpe_step V (int i) st = Inr st1"
    and l1: "regex_bpe_loop V (map int [Suc i..<Suc i + k]) st1 = Inr st'"
    unfolding u by (auto split: sum.splits)
  have "bpe_inv V (Suc i) chunks0 st1"
    using bpe_inv_step [OF assms] Suc.prems(1) s1 unfolding st by blast
  from Suc.IH [OF this l1] show ?case by simp
qed

lemma regex_bpe_loop_trained:
  assumes "\<And>c. c \<in> set chunks0 \<Longrightarrow> list_all is_byte_token c"
    and "regex_bpe_loop V (py_range (V - 256)) (chunks0, base_vocab, []) = Inr st'"
  shows "bpe_inv V (nat (V - 256)) chunks0 st'"
proof (cases "256 \<le> V")
  case True
  from assms(2) have "regex_bpe_loop V (map int [0..<0 + nat (V - 256)]) (chunks0, base_vocab, []) = Inr st'"
    by (simp add: py_range_def)
  from bpe_inv_loop [OF True bpe_inv_init this] assms(1) show ?thesis by simp
next
  case False
  then have "py_range (V - 256) = []" "nat (V - 256) = 0" by (simp_all add: py_range_def)
  with assms(2) bpe_inv_init [of chunks0 V] assms(1) show ?thesis by simp
qed

subsection \<open>The Byte Tokenizer trains like the Chunked Tokenizer on one chunk\<close>

lemma basic_count_pairs_regex: "regex_count_pairs tokens [] = basic_count_pairs tokens"
  by (simp add: regex_count_pairs_def basic_count_pairs_def)

lemma regex_bpe_step_one_chunk:
  "regex_bpe_step V i (one_chunk st) = map_sum id one_chunk (basic_bpe_step V i st)"
  unfolding regex_bpe_step_def basic_bpe_step_def one_chunk_def
  by (auto simp: basic_count_pairs_regex Let_def split: prod.splits sum.splits)

lemma regex_bpe_loop_one_chunk:
  "regex_bpe_loop V is (one_chunk st) = map_sum id one_chunk (basic_bpe_loop V is st)"
proof (induction "is" arbitrary: st)
  case Nil
  show ?case by simp
next
  case (Cons i "is")
  show ?case
  proof (cases "basic_bpe_step V i st")
    case (Inl e)
    then show ?thesis by (simp add: regex_bpe_step_one_chunk)
  next
    case (Inr st1)
    then show ?thesis by (simp add: regex_bpe_step_one_chunk Cons.IH)
  qed
qed

lemma basic_bpe_loop_trained:
  assumes "list_all is_byte_token tokens0"
    and "basic_bpe_loop V (py_range (V - 256)) (tokens0, base_vocab, []) = Inr (tokens, vocab, merges)"
  shows "bpe_inv V (nat (V - 256)) [tokens0] ([tokens], vocab, merges)"
proof -
  have "regex_bpe_loop V (py_range (V - 256)) (one_chunk (tokens0, base_vocab, []))
          = Inr (one_chunk (tokens, vocab, merges))"
    by (simp add: regex_bpe_loop_one_chunk assms(2))
  then show ?thesis
    using regex_bpe_loop_trained [of "[tokens0]" V] assms(1) by (simp add: one_chunk_def)
qed

subsection \<open>Looking tokens up\<close>

lemma vocab_lookup_all_present:
  "set toks \<subseteq> fst ` set vocab \<Longrightarrow>
   vocab_lookup_all vocab toks = Inr (map (\<lambda>t. dict_get vocab t []) toks)"
  by (induction toks) (simp_all add: dict_subscript_present [where dflt = "[]"])

lemma vocab_lookup_all_absent:
  "\<not> set toks \<subseteq> fst ` set vocab \<Longrightarrow>
   \<exists>k. k \<in> set toks \<and> k \<notin> fst ` set vocab \<and> vocab_lookup_all vocab toks = Inl (KeyError k)"
proof (induction toks)
  case Nil
  then show ?case by simp
next
  case (Cons t toks)
  show ?case
  proof (cases "t \<in> fst ` set vocab")
    case False
    then show ?thesis by (auto simp: dict_subscript_absent)
  next
    case True
    with Cons.prems have "\<not> set toks \<subseteq> fst ` set vocab" by simp
    from Cons.IH [OF this] obtain k where "k \<in> set toks" "k \<notin> fst ` set vocab"
      "vocab_lookup_all vocab toks = Inl (KeyError k)" by blast
    with True show ?thesis
      by (auto simp: dict_subscript_present [where dflt = "[]"])
  qed
qed

lemma in_keys_base_vocab: "(t \<in> fst ` set base_vocab) = is_byte_token t"
  using map_of_base_vocab [of t] map_of_eq_None_iff [of base_vocab t]
  by (auto split: if_splits)

lemma decode_trained:
  assumes "self_vocab self = Some vocab" "self_merges self = Some merges"
  shows "basic_decode self toks =
           (case vocab_lookup_all vocab toks of
              Inl e \<Rightarrow> Inl e
            | Inr bs \<Rightarrow> Inr (utf8_decode_replace (concat bs)))"
  using assms by (simp add: basic_decode_def)

lemma regex_decode_eq: "regex_decode self toks = basic_decode self toks"
  by (simp add: regex_decode_def basic_decode_def)

lemma utf8_decode_invalid_start:
  "(0x80 \<le> x \<and> x < 0xC2) \<or> 0xF5 \<le> x \<Longrightarrow>
   utf8_decode_replace (x # rest) = 0xFFFD # utf8_decode_replace rest"
  by (auto simp: utf8_decode_replace.simps(2))

subsection \<open>Training on short or empty input\<close>

lemma regex_bpe_step_no_pair:
  assumes "\<And>c. c \<in> set chunks \<Longrightarrow> length c < 2"
  shows "regex_bpe_step V i (chunks, vocab, merges) = Inl ValueError"
proof -
  have e: "(\<Union>c\<in>set chunks. adjacent c) = {}"
    using assms by (simp add: adjacent_empty_iff)
  obtain r where r: "regex_bpe_step V i (chunks, vocab, merges) = r" by simp
  from r have "r = Inl ValueError"
  proof (cases rule: regex_bpe_step_cases)
    case no_pair
    then show ?thesis by simp
  next
    case (step p)
    with e show ?thesis by simp
  qed
  with r show ?thesis by simp
qed

lemma basic_bpe_step_no_pair:
  assumes "length tokens < 2"
  shows "basic_bpe_step V i (tokens, vocab, merges) = Inl ValueError"
proof -
  have "regex_bpe_step V i (one_chunk (tokens, vocab, merges)) = Inl ValueError"
    unfolding one_chunk_def prod.case using assms by (intro regex_bpe_step_no_pair) simp
  then show ?thesis
    unfolding regex_bpe_step_one_chunk by (cases "basic_bpe_step V i (tokens, vocab, merges)") auto
qed

declare findall.simps [simp del]

lemma findall_ascii_1: "findall ascii_db [97, 33] = [[97], [33]]"
  by code_simp

lemma findall_ascii_2: "findall ascii_db [97, 98] = [[97, 98]]"
  by code_simp

subsection \<open>Running the training loop on concrete input\<close>

lemma dict_subscript_learned:
  "dict_subscript (base_vocab @ learned) t =
     (if is_byte_token t then Inr [nat t] else dict_subscript learned t)"
  by (simp add: dict_subscript_def map_add_def map_of_base_vocab)

lemma dict_subscript_simps:
  "dict_subscript [] t = Inl (KeyError t)"
  "dict_subscript ((k, v) # d) t = (if k = t then Inr v else dict_subscript d t)"
  by (simp_all add: dict_subscript_def)

lemma dict_set_learned:
  "\<not> is_byte_token k \<Longrightarrow> dict_set (base_vocab @ learned) k v = base_vocab @ dict_set learned k v"
proof -
  have "k \<notin> fst ` set d \<Longrightarrow> dict_set (d @ learned) k v = d @ dict_set learned k v" for d
    by (induction d) auto
  then show "\<not> is_byte_token k \<Longrightarrow> ?thesis"
    by (simp add: in_keys_base_vocab)
qed

lemma dict_subscript_base: "dict_subscript base_vocab t = (if is_byte_token t then Inr [nat t] else Inl (KeyError t))"
  by (simp add: dict_subscript_def map_of_base_vocab)

lemma dict_set_base:
  "\<not> is_byte_token k \<Longrightarrow> dict_set base_vocab k v = base_vocab @ [(k, v)]"
  by (simp add: dict_set_fresh in_keys_base_vocab)

lemma py_range_1: "py_range 1 = [0]" by code_simp
lemma py_range_2: "py_range 2 = [0, 1]" by code_simp
lemma py_range_3: "py_range 3 = [0, 1, 2]" by code_simp

lemmas run_training =
  basic_train_def basic_byte_pair_encode_def basic_bpe_step_def basic_count_pairs_def
  regex_train_def regex_byte_pair_encode_def regex_bpe_step_def regex_count_pairs_def
  count_pair_def dict_get_def max_by_count_def merge_eq_greedy Let_def
  dict_subscript_learned dict_subscript_simps dict_set_learned dict_subscript_base dict_set_base is_byte_token_def
  utf8_encode_char_def init_tokenizer_def

subsection \<open>What a successful training leaves behind\<close>

lemma basic_train_Inr:
  assumes "basic_train self text V = (Inr (), self')"
  obtains b tokens vocab merges where "utf8_encode text = Inr b"
    and "basic_bpe_loop V (py_range (V - 256)) (map int b, base_vocab, []) = Inr (tokens, vocab, merges)"
    and "self' = self\<lparr>self_vocab := Some vocab, self_merges := Some merges\<rparr>"
  using assms unfolding basic_train_def basic_byte_pair_encode_def
  by (auto simp: Let_def split: sum.splits prod.splits)

lemma regex_train_Inr:
  assumes "regex_train u self text V = (Inr (), self')"
  obtains bs chunks vocab merges where "encode_chunks (findall u text) = Inr bs"
    and "regex_bpe_loop V (py_range (V - 256)) (bs, base_vocab, []) = Inr (chunks, vocab, merges)"
    and "self' = self\<lparr>self_vocab := Some vocab, self_merges := Some merges\<rparr>"
  using assms unfolding regex_train_def regex_byte_pair_encode_def
  by (auto simp: Let_def split: sum.splits prod.splits)

lemma bytes_are_byte_tokens: "utf8_encode s = Inr b \<Longrightarrow> list_all is_byte_token (map int b)"
  using utf8_encode_range [of s b] by (auto simp: list_all_iff is_byte_token_def)

lemma encode_chunks_byte_tokens:
  "encode_chunks chunks = Inr bs \<Longrightarrow> c \<in> set bs \<Longrightarrow> list_all is_byte_token c"
proof (induction chunks arbitrary: bs)
  case Nil
  then show ?case by simp
next
  case (Cons x xs)
  from Cons.prems(1) obtain b1 bs' where x: "utf8_encode x = Inr b1"
    and xs: "encode_chunks xs = Inr bs'" and bs: "bs = map int b1 # bs'"
    by (auto split: sum.splits)
  with Cons.prems(2) Cons.IH [OF xs] bytes_are_byte_tokens [OF x] show ?case by auto
qed

lemma bpe_inv_tokens_known:
  assumes "bpe_inv V i chunks0 (chunks, vocab, merges)" and "list_all is_byte_token ts"
  shows "set (replay_merges merges ts) \<subseteq> fst ` set vocab"
proof -
  from assms(1) have ids: "map snd merges = learned_ids V i"
    and keys: "map fst vocab = map int [0..<256] @ learned_ids V i"
    unfolding bpe_inv_def prod.case by blast+
  have k: "fst ` set vocab = int ` {0..<256} \<union> set (learned_ids V i)"
    using arg_cong [OF keys, of set] by simp
  have "set ts \<subseteq> int ` {0..<256}"
  proof
    fix t assume "t \<in> set ts"
    with assms(2) have "is_byte_token t" by (simp add: list_all_iff)
    then have "t = int (nat t)" "nat t < 256" by (simp_all add: is_byte_token_def nat_less_iff)
    then show "t \<in> int ` {0..<256}" by (metis atLeast0LessThan imageI lessThan_iff)
  qed
  moreover have "snd ` set merges = set (learned_ids V i)"
    using arg_cong [OF ids, of set] by simp
  ultimately show ?thesis
    using set_replay_merges [of merges ts] unfolding k by blast
qed

lemma bpe_inv_expand:
  assumes "bpe_inv V i chunks0 (chunks, vocab, merges)" and "list_all is_byte_token ts"
  shows "expand vocab (replay_merges merges ts) = map nat ts"
  using assms unfolding bpe_inv_def prod.case by blast

lemma bpe_inv_decode:
  assumes inv: "bpe_inv V i chunks0 (chunks, vocab, merges)"
    and self: "self_vocab self = Some vocab" "self_merges self = Some merges"
    and cs: "\<And>c. c \<in> set cs \<Longrightarrow> list_all is_byte_token c"
    and T: "utf8_encode T = Inr b" "concat cs = map int b"
  shows "basic_decode self (concat (map (replay_merges merges) cs)) = Inr T"
proof -
  let ?toks = "concat (map (replay_merges merges) cs)"
  have "set ?toks \<subseteq> fst ` set vocab"
    using bpe_inv_tokens_known [OF inv cs] by auto
  then have l: "vocab_lookup_all vocab ?toks = Inr (map (\<lambda>t. dict_get vocab t []) ?toks)"
    by (rule vocab_lookup_all_present)
  have "expand vocab ?toks = map nat (concat cs)"
    using cs
  proof (induction cs)
    case Nil
    show ?case by simp
  next
    case (Cons c cs)
    then show ?case by (simp add: bpe_inv_expand [OF inv])
  qed
  also have "\<dots> = b" by (simp add: T(2) comp_def)
  finally have "concat (map (\<lambda>t. dict_get vocab t []) ?toks) = b"
    by (simp add: expand_def)
  with l utf8_encode_decode [OF T(1), of "[]"] show ?thesis
    by (simp add: decode_trained [OF self])
qed

lemma regex_encode_loop_chunks:
  "regex_encode_loop merges chunks acc =
     (case encode_chunks chunks of
        Inl e \<Rightarrow> Inl e
      | Inr bs \<Rightarrow> Inr (acc @ concat (map (replay_merges merges) bs)))"
  by (induction chunks arbitrary: acc) (auto split: sum.splits)

lemma basic_train_tables:
  assumes "256 \<le> V" and "basic_train self text V = (Inr (), self')"
  shows "\<exists>vocab merges.
           self_vocab self' = Some vocab \<and> self_merges self' = Some merges
         \<and> map fst vocab = map int [0..<256] @ learned_ids V (nat (V - 256))
         \<and> distinct (map fst vocab) \<and> length vocab = nat V
         \<and> map snd merges = learned_ids V (nat (V - 256))
         \<and> distinct (map fst merges) \<and> length merges = nat (V - 256)"
proof -
  from assms(2) obtain b tokens vocab merges where b: "utf8_encode text = Inr b"
    and l: "basic_bpe_loop V (py_range (V - 256)) (map int b, base_vocab, []) = Inr (tokens, vocab, merges)"
    and s: "self' = self\<lparr>self_vocab := Some vocab, self_merges := Some merges\<rparr>"
    by (rule basic_train_Inr)
  have inv: "bpe_inv V (nat (V - 256)) [map int b] ([tokens], vocab, merges)"
    using basic_bpe_loop_trained [OF bytes_are_byte_tokens [OF b] l] .
  then have ids: "map snd merges = learned_ids V (nat (V - 256))"
    and dm: "distinct (map fst merges)"
    and keys: "map fst vocab = map int [0..<256] @ learned_ids V (nat (V - 256))"
    unfolding bpe_inv_def prod.case by blast+
  have "distinct (map int [0..<256] @ learned_ids V (nat (V - 256)))"
    using assms(1) by (auto simp: learned_ids_def distinct_map inj_on_def)
  then have dv: "distinct (map fst vocab)" by (simp add: keys)
  have lv: "length vocab = nat V"
    using arg_cong [OF keys, of length] assms(1) by (simp add: learned_ids_def)
  have lm: "length merges = nat (V - 256)"
    using arg_cong [OF ids, of length] by (simp add: learned_ids_def)
  from s ids dm keys dv lv lm show ?thesis by simp
qed

subsection \<open>Two trained tokenizers\<close>

lemma dict_get_learned:
  "dict_get (base_vocab @ learned) t dflt =
     (if is_byte_token t then [nat t] else dict_get learned t dflt)"
  by (simp add: dict_get_def map_add_def map_of_base_vocab)

lemma basic_train_aaab:
  "basic_train init_tokenizer [97, 97, 97, 98] 257
     = (Inr (), \<lparr>self_vocab = Some (base_vocab @ [(257, [97, 97])]),
                 self_merges = Some [((97, 97), 257)]\<rparr>)"
  by (simp add: run_training py_range_1)

lemma findall_ab_cd: "findall ascii_db [97, 98, 32, 99, 100] = [[97, 98], [32, 99, 100]]"
  by code_simp

lemma regex_train_ab_cd:
  "regex_train ascii_db init_tokenizer [97, 98, 32, 99, 100] 259
     = (Inr (), \<lparr>self_vocab = Some (base_vocab @ [(259, [97, 98]), (260, [32, 99]), (261, [32, 99, 100])]),
                 self_merges = Some [((97, 98), 259), ((32, 99), 260), ((260, 100), 261)]\<rparr>)"
  by (simp add: run_training py_range_3 findall_ab_cd)

subsection \<open>Well-formed and ill-formed UTF-8\<close>

lemma digits2_unique:
  fixes A B :: nat
  assumes "B < 64"
  shows "(A * 64 + B) div 64 = A" "(A * 64 + B) mod 64 = B"
  using assms by simp_all

lemma digits3_unique:
  fixes A B D :: nat
  assumes "B < 64" "D < 64"
  shows "(A * 4096 + B * 64 + D) div 4096 = A"
    and "(A * 4096 + B * 64 + D) div 64 mod 64 = B"
    and "(A * 4096 + B * 64 + D) mod 64 = D"
proof -
  have e: "A * 4096 + B * 64 + D = (A * 64 + B) * 64 + D" by simp
  have d: "(A * 4096 + B * 64 + D) div 64 = A * 64 + B"
    unfolding e using assms(2) by (rule digits2_unique(1))
  show "(A * 4096 + B * 64 + D) div 64 mod 64 = B"
    unfolding d using assms(1) by (rule digits2_unique(2))
  show "(A * 4096 + B * 64 + D) mod 64 = D"
    unfolding e using assms(2) by (rule digits2_unique(2))
  show "(A * 4096 + B * 64 + D) div 4096 = A"
    unfolding div_4096 d using assms(1) by (rule digits2_unique(1))
qed

lemma digits4_unique:
  fixes A B D E :: nat
  assumes "B < 64" "D < 64" "E < 64"
  shows "(A * 262144 + B * 4096 + D * 64 + E) div 262144 = A"
    and "(A * 262144 + B * 4096 + D * 64 + E) div 4096 mod 64 = B"
    and "(A * 262144 + B * 4096 + D * 64 + E) div 64 mod 64 = D"
    and "(A * 262144 + B * 4096 + D * 64 + E) mod 64 = E"
proof -
  have e: "A * 262144 + B * 4096 + D * 64 + E = (A * 64 + B) * 4096 + D * 64 + E" by simp
  show "(A * 262144 + B * 4096 + D * 64 + E) div 64 mod 64 = D"
    unfolding e using assms(2,3) by (rule digits3_unique(2))
  show "(A * 262144 + B * 4096 + D * 64 + E) mod 64 = E"
    unfolding e using assms(2,3) by (rule digits3_unique(3))
  have d: "(A * 262144 + B * 4096 + D * 64 + E) div 4096 = A * 64 + B"
    unfolding e using assms(2,3) by (rule digits3_unique(1))
  show "(A * 262144 + B * 4096 + D * 64 + E) div 4096 mod 64 = B"
    unfolding d using assms(1) by (rule digits2_unique(2))
  show "(A * 262144 + B * 4096 + D * 64 + E) div 262144 = A"
    unfolding div_262144 d using assms(1) by (rule digits2_unique(1))
qed

lemma encode_char_table_1: "a < 0x80 \<Longrightarrow> utf8_encode_char a = Inr [a]"
  by (simp add: utf8_encode_char_def)

lemma encode_char_table_2:
  assumes "0xC2 \<le> a" "a < 0xE0" "is_continuation_byte b"
  shows "utf8_encode_char ((a - 0xC0) * 64 + (b - 0x80)) = Inr [a, b]"
proof -
  define A where "A = a - 0xC0"
  define B where "B = b - 0x80"
  have ab: "a = 0xC0 + A" "b = 0x80 + B" "2 \<le> A" "A < 32" "B < 64"
    using assms unfolding A_def B_def is_continuation_byte_def by linarith+
  have r: "\<not> A * 64 + B < 0x80" "A * 64 + B < 0x800"
    using ab by linarith+
  show ?thesis
    unfolding A_def [symmetric] B_def [symmetric] utf8_encode_char_def
    using r ab digits2_unique [OF ab(5), of A] by simp
qed

lemma encode_char_table_3:
  assumes "0xE0 \<le> a" "a < 0xF0" "is_continuation_byte b"
    and "\<not> (if b < 0xA0 then a = 0xE0 else a = 0xED)" "is_continuation_byte d"
  shows "utf8_encode_char ((a - 0xE0) * 4096 + (b - 0x80) * 64 + (d - 0x80)) = Inr [a, b, d]"
proof -
  define A where "A = a - 0xE0"
  define B where "B = b - 0x80"
  define D where "D = d - 0x80"
  have ab: "a = 0xE0 + A" "b = 0x80 + B" "d = 0x80 + D" "A < 16" "B < 64" "D < 64"
    using assms unfolding A_def B_def D_def is_continuation_byte_def by linarith+
  have o: "A = 0 \<Longrightarrow> 32 \<le> B" "A = 13 \<Longrightarrow> B < 32"
    using assms(4) ab by (auto split: if_splits)
  have r: "\<not> A * 4096 + B * 64 + D < 0x80" "\<not> A * 4096 + B * 64 + D < 0x800"
    "A * 4096 + B * 64 + D < 0x10000"
    using ab o by linarith+
  have s: "\<not> (0xD800 \<le> A * 4096 + B * 64 + D \<and> A * 4096 + B * 64 + D \<le> 0xDFFF)"
  proof
    assume h: "0xD800 \<le> A * 4096 + B * 64 + D \<and> A * 4096 + B * 64 + D \<le> 0xDFFF"
    with ab have "A = 13" by linarith
    with o(2) have "B < 32" by simp
    with h \<open>A = 13\<close> ab show False by linarith
  qed
  show ?thesis
    unfolding A_def [symmetric] B_def [symmetric] D_def [symmetric] utf8_encode_char_def
    using r s ab digits3_unique [OF ab(5,6), of A] by simp
qed

lemma encode_char_table_4:
  assumes "0xF0 \<le> a" "a < 0xF5" "is_continuation_byte b"
    and "\<not> (if b < 0x90 then a = 0xF0 else a = 0xF4)" "is_continuation_byte d"
    and "is_continuation_byte e"
  shows "utf8_encode_char ((a - 0xF0) * 262144 + (b - 0x80) * 4096 + (d - 0x80) * 64 + (e - 0x80))
           = Inr [a, b, d, e]"
proof -
  define A where "A = a - 0xF0"
  define B where "B = b - 0x80"
  define D where "D = d - 0x80"
  define E where "E = e - 0x80"
  have ab: "a = 0xF0 + A" "b = 0x80 + B" "d = 0x80 + D" "e = 0x80 + E"
    "A < 5" "B < 64" "D < 64" "E < 64"
    using assms unfolding A_def B_def D_def E_def is_continuation_byte_def by linarith+
  have o: "A = 0 \<Longrightarrow> 16 \<le> B" "A = 4 \<Longrightarrow> B < 16"
    using assms(4) ab by (auto split: if_splits)
  have r: "\<not> A * 262144 + B * 4096 + D * 64 + E < 0x80"
    "\<not> A * 262144 + B * 4096 + D * 64 + E < 0x800"
    "\<not> A * 262144 + B * 4096 + D * 64 + E < 0x10000"
    "A * 262144 + B * 4096 + D * 64 + E < 0x110000"
    using ab o by linarith+
  show ?thesis
    unfolding A_def [symmetric] B_def [symmetric] D_def [symmetric] E_def [symmetric]
      utf8_encode_char_def
    using r ab digits4_unique [OF ab(6,7,8), of A] by simp
qed

lemma utf8_encode_char_cases:
  assumes "utf8_encode_char c = Inr w"
  obtains (one) "w = [c]" "c < 0x80"
  | (two) a b where "w = [a, b]" "0xC2 \<le> a" "a < 0xE0" "is_continuation_byte b"
  | (three) a b d where "w = [a, b, d]" "0xE0 \<le> a" "a < 0xF0" "is_continuation_byte b"
      "\<not> (if b < 0xA0 then a = 0xE0 else a = 0xED)" "is_continuation_byte d"
  | (four) a b d e where "w = [a, b, d, e]" "0xF0 \<le> a" "a < 0xF5" "is_continuation_byte b"
      "\<not> (if b < 0x90 then a = 0xF0 else a = 0xF4)" "is_continuation_byte d"
      "is_continuation_byte e"
proof -
  consider (c1) "c < 0x80" | (c2) "0x80 \<le> c" "c < 0x800"
    | (c3) "0x800 \<le> c" "c < 0x10000" | (c4) "0x10000 \<le> c" "c < 0x110000"
    | (none) "0x110000 \<le> c"
    by linarith
  then show thesis
  proof cases
    case c1
    with assms have "w = [c]" by (simp add: utf8_encode_char_def)
    then show thesis using c1 by (rule one)
  next
    case c2
    with assms have w: "w = [0xC0 + c div 64, 0x80 + c mod 64]"
      by (simp add: utf8_encode_char_def)
    define A where "A = c div 64"
    define B where "B = c mod 64"
    have c: "c = A * 64 + B" "B < 64" by (simp_all add: A_def B_def)
    with c2 have "2 \<le> A" "A < 32" by linarith+
    with c show thesis
      by (intro two [of "0xC0 + A" "0x80 + B"])
        (simp_all add: w A_def B_def is_continuation_byte_def)
  next
    case c3
    with assms have s: "\<not> (0xD800 \<le> c \<and> c \<le> 0xDFFF)"
      and w: "w = [0xE0 + c div 4096, 0x80 + (c div 64) mod 64, 0x80 + c mod 64]"
      by (simp_all add: utf8_encode_char_def split: if_splits)
    define A where "A = c div 4096"
    define B where "B = c div 64 mod 64"
    define D where "D = c mod 64"
    have c: "c = A * 4096 + B * 64 + D" "B < 64" "D < 64"
      unfolding A_def B_def D_def using digits3 [of c] by simp_all
    with c3 have A: "A < 16" by linarith
    have o1: "B < 32 \<Longrightarrow> A \<noteq> 0" using c c3 by linarith
    have o2: "\<not> B < 32 \<Longrightarrow> A \<noteq> 13" using c s by linarith
    have "\<not> (if 0x80 + B < 0xA0 then 0xE0 + A = 0xE0 else 0xE0 + A = 0xED)"
      using o1 o2 by simp
    with c A show thesis
      by (intro three [of "0xE0 + A" "0x80 + B" "0x80 + D"])
        (simp_all add: w A_def B_def D_def is_continuation_byte_def)
  next
    case c4
    with assms have w: "w = [0xF0 + c div 262144, 0x80 + (c div 4096) mod 64,
        0x80 + (c div 64) mod 64, 0x80 + c mod 64]"
      by (simp add: utf8_encode_char_def)
    define A where "A = c div 262144"
    define B where "B = c div 4096 mod 64"
    define D where "D = c div 64 mod 64"
    define E where "E = c mod 64"
    have c: "c = A * 262144 + B * 4096 + D * 64 + E" "B < 64" "D < 64" "E < 64"
      unfolding A_def B_def D_def E_def using digits4 [of c] by simp_all
    with c4 have A: "A < 5" by linarith
    have o1: "B < 16 \<Longrightarrow> A \<noteq> 0" using c c4 by linarith
    have o2: "\<not> B < 16 \<Longrightarrow> A \<noteq> 4" using c c4 by linarith
    have "\<not> (if 0x80 + B < 0x90 then 0xF0 + A = 0xF0 else 0xF0 + A = 0xF4)"
      using o1 o2 by simp
    with c A show thesis
      by (intro four [of "0xF0 + A" "0x80 + B" "0x80 + D" "0x80 + E"])
        (simp_all add: w A_def B_def D_def E_def is_continuation_byte_def)
  next
    case none
    with assms show thesis by (simp add: utf8_encode_char_def)
  qed
qed

lemma well_formed_Nil [simp]: "\<not> well_formed []"
  unfolding well_formed_def by (auto elim: utf8_encode_char_cases)

lemma well_formed_1 [simp]: "well_formed [a] = (a < 0x80)"
  unfolding well_formed_def
  by (auto elim: utf8_encode_char_cases intro: encode_char_table_1)

lemma well_formed_2 [simp]:
  "well_formed [a, b] = (0xC2 \<le> a \<and> a < 0xE0 \<and> is_continuation_byte b)"
  unfolding well_formed_def
  by (auto elim: utf8_encode_char_cases intro: encode_char_table_2)

lemma well_formed_3 [simp]:
  "well_formed [a, b, d] =
     (0xE0 \<le> a \<and> a < 0xF0 \<and> is_continuation_byte b
      \<and> \<not> (if b < 0xA0 then a = 0xE0 else a = 0xED) \<and> is_continuation_byte d)"
  unfolding well_formed_def
proof
  assume "\<exists>c. utf8_encode_char c = Inr [a, b, d]"
  then obtain c where "utf8_encode_char c = Inr [a, b, d]" ..
  then show "0xE0 \<le> a \<and> a < 0xF0 \<and> is_continuation_byte b
      \<and> \<not> (if b < 0xA0 then a = 0xE0 else a = 0xED) \<and> is_continuation_byte d"
    by (cases rule: utf8_encode_char_cases) simp_all
next
  assume "0xE0 \<le> a \<and> a < 0xF0 \<and> is_continuation_byte b
      \<and> \<not> (if b < 0xA0 then a = 0xE0 else a = 0xED) \<and> is_continuation_byte d"
  then show "\<exists>c. utf8_encode_char c = Inr [a, b, d]"
    using encode_char_table_3 [of a b d] by blast
qed

lemma well_formed_4 [simp]:
  "well_formed [a, b, d, e] =
     (0xF0 \<le> a \<and> a < 0xF5 \<and> is_continuation_byte b
      \<and> \<not> (if b < 0x90 then a = 0xF0 else a = 0xF4) \<and> is_continuation_byte d
      \<and> is_continuation_byte e)"
  unfolding well_formed_def
proof
  assume "\<exists>c. utf8_encode_char c = Inr [a, b, d, e]"
  then obtain c where "utf8_encode_char c = Inr [a, b, d, e]" ..
  then show "0xF0 \<le> a \<and> a < 0xF5 \<and> is_continuation_byte b
      \<and> \<not> (if b < 0x90 then a = 0xF0 else a = 0xF4) \<and> is_continuation_byte d
      \<and> is_continuation_byte e"
    by (cases rule: utf8_encode_char_cases) simp_all
next
  assume "0xF0 \<le> a \<and> a < 0xF5 \<and> is_continuation_byte b
      \<and> \<not> (if b < 0x90 then a = 0xF0 else a = 0xF4) \<and> is_continuation_byte d
      \<and> is_continuation_byte e"
  then show "\<exists>c. utf8_encode_char c = Inr [a, b, d, e]"
    using encode_char_table_4 [of a b d e] by blast
qed

lemma well_formed_long [simp]: "\<not> well_formed (a # b # d # e # f # q)"
  unfolding well_formed_def by (auto elim: utf8_encode_char_cases)

lemma well_formed_cases:
  assumes "well_formed w"
  obtains a where "w = [a]" | a b where "w = [a, b]" | a b d where "w = [a, b, d]"
  | a b d e where "w = [a, b, d, e]"
  using assms unfolding well_formed_def by (auto elim: utf8_encode_char_cases)

lemma incompleteI: "ext \<noteq> [] \<Longrightarrow> well_formed (p @ ext) \<Longrightarrow> incomplete p"
  unfolding incomplete_def by blast

lemma cont_0x80: "is_continuation_byte 0x80" "is_continuation_byte 0x90" "is_continuation_byte 0xA0"
  by (simp_all add: is_continuation_byte_def)

lemma incomplete_1 [simp]: "incomplete [a] = (0xC2 \<le> a \<and> a < 0xF5)"
proof
  assume "incomplete [a]"
  then obtain ext where m: "ext \<noteq> []" "well_formed (a # ext)"
    unfolding incomplete_def by auto
  from m(2) m(1) m(2) show "0xC2 \<le> a \<and> a < 0xF5"
    by (cases rule: well_formed_cases) auto
next
  assume a: "0xC2 \<le> a \<and> a < 0xF5"
  then consider "a < 0xE0" | "0xE0 \<le> a" "a < 0xF0" | "0xF0 \<le> a" by linarith
  then show "incomplete [a]"
  proof cases
    case 1
    with a have "well_formed ([a] @ [0x80])" by (simp add: cont_0x80)
    then show ?thesis by (intro incompleteI [of "[0x80]"]) simp_all
  next
    case 2
    then have "well_formed ([a] @ [if a = 0xE0 then 0xA0 else 0x80, 0x80])"
      by (simp add: cont_0x80)
    then show ?thesis by (intro incompleteI [of "[if a = 0xE0 then 0xA0 else 0x80, 0x80]"]) simp_all
  next
    case 3
    with a have "well_formed ([a] @ [if a = 0xF0 then 0x90 else 0x80, 0x80, 0x80])"
      by (simp add: cont_0x80)
    then show ?thesis
      by (intro incompleteI [of "[if a = 0xF0 then 0x90 else 0x80, 0x80, 0x80]"]) simp_all
  qed
qed

lemma incomplete_2 [simp]:
  "incomplete [a, b] =
     (is_continuation_byte b
      \<and> (if a < 0xF0 then 0xE0 \<le> a \<and> \<not> (if b < 0xA0 then a = 0xE0 else a = 0xED)
          else a < 0xF5 \<and> \<not> (if b < 0x90 then a = 0xF0 else a = 0xF4)))"
proof
  assume "incomplete [a, b]"
  then obtain ext where m: "ext \<noteq> []" "well_formed (a # b # ext)"
    unfolding incomplete_def by auto
  from m(2) m(1) m(2) show "is_continuation_byte b
      \<and> (if a < 0xF0 then 0xE0 \<le> a \<and> \<not> (if b < 0xA0 then a = 0xE0 else a = 0xED)
          else a < 0xF5 \<and> \<not> (if b < 0x90 then a = 0xF0 else a = 0xF4))"
    by (cases rule: well_formed_cases) (auto split: if_splits)
next
  assume a: "is_continuation_byte b
      \<and> (if a < 0xF0 then 0xE0 \<le> a \<and> \<not> (if b < 0xA0 then a = 0xE0 else a = 0xED)
          else a < 0xF5 \<and> \<not> (if b < 0x90 then a = 0xF0 else a = 0xF4))"
  show "incomplete [a, b]"
  proof (cases "a < 0xF0")
    case True
    with a have "well_formed ([a, b] @ [0x80])" by (simp add: cont_0x80)
    then show ?thesis by (intro incompleteI [of "[0x80]"]) simp_all
  next
    case False
    with a have "well_formed ([a, b] @ [0x80, 0x80])" by (simp add: cont_0x80)
    then show ?thesis by (intro incompleteI [of "[0x80, 0x80]"]) simp_all
  qed
qed

lemma incomplete_3 [simp]:
  "incomplete [a, b, d] =
     (0xF0 \<le> a \<and> a < 0xF5 \<and> is_continuation_byte b
      \<and> \<not> (if b < 0x90 then a = 0xF0 else a = 0xF4) \<and> is_continuation_byte d)"
proof
  assume "incomplete [a, b, d]"
  then obtain ext where m: "ext \<noteq> []" "well_formed (a # b # d # ext)"
    unfolding incomplete_def by auto
  from m(2) m(1) m(2) show "0xF0 \<le> a \<and> a < 0xF5 \<and> is_continuation_byte b
      \<and> \<not> (if b < 0x90 then a = 0xF0 else a = 0xF4) \<and> is_continuation_byte d"
    by (cases rule: well_formed_cases) (auto split: if_splits)
next
  assume a: "0xF0 \<le> a \<and> a < 0xF5 \<and> is_continuation_byte b
      \<and> \<not> (if b < 0x90 then a = 0xF0 else a = 0xF4) \<and> is_continuation_byte d"
  then have "well_formed ([a, b, d] @ [0x80])" by (simp add: cont_0x80)
  then show "incomplete [a, b, d]" by (intro incompleteI [of "[0x80]"]) simp_all
qed

lemma starts_well_formedI: "well_formed w \<Longrightarrow> starts_well_formed (w @ rest)"
  unfolding starts_well_formed_def by blast

lemma starts_well_formed_iff:
  "starts_well_formed bs =
     (well_formed (take 1 bs) \<or> well_formed (take 2 bs) \<or> well_formed (take 3 bs)
      \<or> well_formed (take 4 bs))"
proof
  assume "starts_well_formed bs"
  then obtain w rest where w: "well_formed w" "bs = w @ rest"
    unfolding starts_well_formed_def by blast
  from w(1) w(1) show "well_formed (take 1 bs) \<or> well_formed (take 2 bs) \<or> well_formed (take 3 bs)
      \<or> well_formed (take 4 bs)"
    by (cases rule: well_formed_cases) (simp_all add: w(2))
next
  assume "well_formed (take 1 bs) \<or> well_formed (take 2 bs) \<or> well_formed (take 3 bs)
      \<or> well_formed (take 4 bs)"
  then obtain n where "well_formed (take n bs)" by blast
  then have "starts_well_formed (take n bs @ drop n bs)" by (rule starts_well_formedI)
  then show "starts_well_formed bs" by simp
qed

lemma decode_step_A: "\<not> well_formed [ch] \<Longrightarrow> utf8_decode_replace [ch] = [0xFFFD]"
  by (subst utf8_decode_replace.simps(2)) simp

lemma decode_step_C: "incomplete [ch, ch2] \<Longrightarrow> utf8_decode_replace [ch, ch2] = [0xFFFD]"
  by (subst utf8_decode_replace.simps(2)) (auto split: if_splits)

lemma decode_step_E:
  "incomplete [ch, ch2, ch3] \<Longrightarrow> utf8_decode_replace [ch, ch2, ch3] = [0xFFFD]"
  by (subst utf8_decode_replace.simps(2)) (auto split: if_splits)


lemma decode_table_2_bad:
  "0xC2 \<le> ch \<Longrightarrow> ch < 0xE0 \<Longrightarrow> \<not> is_continuation_byte ch2 \<Longrightarrow>
   utf8_decode_replace (ch # ch2 # s2) = 0xFFFD # utf8_decode_replace (ch2 # s2)"
  by (subst utf8_decode_replace.simps(2)) simp

lemma decode_table_3_bad2:
  "0xE0 \<le> ch \<Longrightarrow> ch < 0xF0 \<Longrightarrow>
   \<not> is_continuation_byte ch2 \<or> (if ch2 < 0xA0 then ch = 0xE0 else ch = 0xED) \<Longrightarrow>
   utf8_decode_replace (ch # ch2 # s2) = 0xFFFD # utf8_decode_replace (ch2 # s2)"
  by (subst utf8_decode_replace.simps(2)) auto

lemma decode_table_3_bad3:
  "0xE0 \<le> ch \<Longrightarrow> ch < 0xF0 \<Longrightarrow> is_continuation_byte ch2 \<Longrightarrow>
   \<not> (if ch2 < 0xA0 then ch = 0xE0 else ch = 0xED) \<Longrightarrow> \<not> is_continuation_byte ch3 \<Longrightarrow>
   utf8_decode_replace (ch # ch2 # ch3 # s3) = 0xFFFD # utf8_decode_replace (ch3 # s3)"
  by (subst utf8_decode_replace.simps(2)) simp

lemma decode_table_4_bad2:
  "0xF0 \<le> ch \<Longrightarrow> ch < 0xF5 \<Longrightarrow>
   \<not> is_continuation_byte ch2 \<or> (if ch2 < 0x90 then ch = 0xF0 else ch = 0xF4) \<Longrightarrow>
   utf8_decode_replace (ch # ch2 # s2) = 0xFFFD # utf8_decode_replace (ch2 # s2)"
  by (subst utf8_decode_replace.simps(2)) auto

lemma decode_table_4_bad3:
  "0xF0 \<le> ch \<Longrightarrow> ch < 0xF5 \<Longrightarrow> is_continuation_byte ch2 \<Longrightarrow>
   \<not> (if ch2 < 0x90 then ch = 0xF0 else ch = 0xF4) \<Longrightarrow> \<not> is_continuation_byte ch3 \<Longrightarrow>
   utf8_decode_replace (ch # ch2 # ch3 # s3) = 0xFFFD # utf8_decode_replace (ch3 # s3)"
  by (subst utf8_decode_replace.simps(2)) simp

lemma decode_table_4_bad4:
  "0xF0 \<le> ch \<Longrightarrow> ch < 0xF5 \<Longrightarrow> is_continuation_byte ch2 \<Longrightarrow>
   \<not> (if ch2 < 0x90 then ch = 0xF0 else ch = 0xF4) \<Longrightarrow> is_continuation_byte ch3 \<Longrightarrow>
   \<not> is_continuation_byte ch4 \<Longrightarrow>
   utf8_decode_replace (ch # ch2 # ch3 # ch4 # s4) = 0xFFFD # utf8_decode_replace (ch4 # s4)"
  by (subst utf8_decode_replace.simps(2)) simp


lemma lead_byte_classes:
  fixes ch :: nat
  assumes "0x80 \<le> ch"
  obtains (bad) "(0x80 \<le> ch \<and> ch < 0xC2) \<or> 0xF5 \<le> ch"
  | (two) "0xC2 \<le> ch" "ch < 0xE0"
  | (three) "0xE0 \<le> ch" "ch < 0xF0"
  | (four) "0xF0 \<le> ch" "ch < 0xF5"
  using assms by linarith

lemma decode_step_B:
  assumes n1: "\<not> well_formed [ch]" and n2: "\<not> well_formed [ch, ch2]"
    and ni: "\<not> incomplete [ch, ch2]"
  shows "utf8_decode_replace (ch # ch2 # s2) = 0xFFFD # utf8_decode_replace (ch2 # s2)"
proof -
  from n1 have "0x80 \<le> ch" by simp
  then show ?thesis
  proof (cases rule: lead_byte_classes)
    case bad
    then show ?thesis by (rule utf8_decode_invalid_start)
  next
    case two
    with n2 have "\<not> is_continuation_byte ch2" by simp
    with two show ?thesis by (intro decode_table_2_bad)
  next
    case three
    with ni have "\<not> is_continuation_byte ch2 \<or> (if ch2 < 0xA0 then ch = 0xE0 else ch = 0xED)"
      by auto
    with three show ?thesis by (intro decode_table_3_bad2)
  next
    case four
    with ni have "\<not> is_continuation_byte ch2 \<or> (if ch2 < 0x90 then ch = 0xF0 else ch = 0xF4)"
      by auto
    with four show ?thesis by (intro decode_table_4_bad2)
  qed
qed

lemma decode_step_D:
  assumes i2: "incomplete [ch, ch2]" and n3: "\<not> well_formed [ch, ch2, ch3]"
    and ni: "\<not> incomplete [ch, ch2, ch3]"
  shows "utf8_decode_replace (ch # ch2 # ch3 # s3) = 0xFFFD # utf8_decode_replace (ch3 # s3)"
proof (cases "ch < 0xF0")
  case True
  with i2 have l: "0xE0 \<le> ch" "is_continuation_byte ch2"
    "\<not> (if ch2 < 0xA0 then ch = 0xE0 else ch = 0xED)"
    by simp_all
  with n3 True have "\<not> is_continuation_byte ch3" by simp
  with l True show ?thesis by (intro decode_table_3_bad3)
next
  case False
  with i2 have l: "ch < 0xF5" "is_continuation_byte ch2"
    "\<not> (if ch2 < 0x90 then ch = 0xF0 else ch = 0xF4)"
    by simp_all
  with ni False have "\<not> is_continuation_byte ch3" by simp
  with l False show ?thesis by (intro decode_table_4_bad3) simp_all
qed

lemma decode_step_F:
  assumes i3: "incomplete [ch, ch2, ch3]" and n4: "\<not> well_formed [ch, ch2, ch3, ch4]"
  shows "utf8_decode_replace (ch # ch2 # ch3 # ch4 # s4) = 0xFFFD # utf8_decode_replace (ch4 # s4)"
proof -
  from i3 have l: "0xF0 \<le> ch" "ch < 0xF5" "is_continuation_byte ch2"
    "\<not> (if ch2 < 0x90 then ch = 0xF0 else ch = 0xF4)" "is_continuation_byte ch3"
    by simp_all
  with n4 have "\<not> is_continuation_byte ch4" by simp
  with l show ?thesis by (intro decode_table_4_bad4)
qed

lemma decode_ill_formed:
  assumes "bs \<noteq> []" and n: "\<not> starts_well_formed bs"
  shows "utf8_decode_replace bs
           = 0xFFFD # utf8_decode_replace (drop (ill_formed_span bs) bs)"
proof -
  from assms(1) obtain ch s where bs: "bs = ch # s" by (cases bs) auto
  show ?thesis
  proof (cases s)
    case Nil
    with n bs have "\<not> well_formed [ch]" by (simp add: starts_well_formed_iff)
    then show ?thesis
      unfolding bs Nil by (simp add: decode_step_A ill_formed_span_def)
  next
    case s: (Cons ch2 s2)
    show ?thesis
    proof (cases s2)
      case Nil
      with n bs s have n1: "\<not> well_formed [ch]" and n2: "\<not> well_formed [ch, ch2]"
        by (simp_all add: starts_well_formed_iff)
      show ?thesis
      proof (cases "incomplete [ch, ch2]")
        case True
        then have "ill_formed_span [ch, ch2] = 2" by (simp add: ill_formed_span_def)
        with True show ?thesis unfolding bs s Nil by (simp add: decode_step_C)
      next
        case False
        then have "ill_formed_span [ch, ch2] = 1" by (simp add: ill_formed_span_def)
        with decode_step_B [OF n1 n2 False, of "[]"] show ?thesis unfolding bs s Nil by simp
      qed
    next
      case s2: (Cons ch3 s3)
      from n bs s s2 have n1: "\<not> well_formed [ch]" and n2: "\<not> well_formed [ch, ch2]"
        and n3: "\<not> well_formed [ch, ch2, ch3]" and n4: "\<not> well_formed (take 4 bs)"
        by (simp_all add: starts_well_formed_iff)
      show ?thesis
      proof (cases "incomplete [ch, ch2, ch3]")
        case True
        then have sp: "ill_formed_span bs = 3" by (simp add: ill_formed_span_def bs s s2)
        show ?thesis
        proof (cases s3)
          case Nil
          with sp True show ?thesis unfolding bs s s2 by (simp add: decode_step_E)
        next
          case (Cons ch4 s4)
          with n4 bs s s2 have "\<not> well_formed [ch, ch2, ch3, ch4]" by simp
          from decode_step_F [OF True this, of s4] sp show ?thesis
            unfolding bs s s2 Cons by simp
        qed
      next
        case i3: False
        show ?thesis
        proof (cases "incomplete [ch, ch2]")
          case True
          with i3 have sp: "ill_formed_span bs = 2" by (simp add: ill_formed_span_def bs s s2)
          from decode_step_D [OF True n3 i3, of s3] sp show ?thesis
            unfolding bs s s2 by simp
        next
          case False
          with i3 have sp: "ill_formed_span bs = 1" by (simp add: ill_formed_span_def bs s s2)
          from decode_step_B [OF n1 n2 False, of "ch3 # s3"] sp show ?thesis
            unfolding bs s s2 by simp
        qed
      qed
    qed
  qed
qed

subsection \<open>Learned tokens stay inside a chunk\<close>

lemma is_slice_iff: "is_slice xs ys = (\<exists>pre suf. ys = pre @ xs @ suf)"
proof
  assume "is_slice xs ys"
  then obtain i where i: "take (length xs) (drop i ys) = xs"
    unfolding is_slice_def list_ex_iff by auto
  have "ys = take i ys @ take (length xs) (drop i ys) @ drop (length xs) (drop i ys)"
    by (metis append_take_drop_id)
  with i show "\<exists>pre suf. ys = pre @ xs @ suf" by metis
next
  assume "\<exists>pre suf. ys = pre @ xs @ suf"
  then obtain pre suf where ys: "ys = pre @ xs @ suf" by blast
  have "take (length xs) (drop (length pre) ys) = xs" by (simp add: ys)
  moreover have "length pre \<in> set [0..<Suc (length ys)]" by (simp add: ys)
  ultimately show "is_slice xs ys"
    unfolding is_slice_def list_ex_iff by blast
qed

lemma adjacent_split: "(a, b) \<in> adjacent ts \<Longrightarrow> \<exists>pre suf. ts = pre @ a # b # suf"
proof (induction ts)
  case Nil
  then show ?case by simp
next
  case (Cons x xs)
  show ?case
  proof (cases xs)
    case Nil
    with Cons.prems show ?thesis by simp
  next
    case c: (Cons y ys)
    show ?thesis
    proof (cases "(a, b) = (x, y)")
      case True
      with c have "x # xs = [] @ a # b # ys" by simp
      then show ?thesis by blast
    next
      case False
      with Cons.prems c have "(a, b) \<in> adjacent xs" by auto
      from Cons.IH [OF this] obtain pre suf where "xs = pre @ a # b # suf" by blast
      then have "x # xs = (x # pre) @ a # b # suf" by simp
      then show ?thesis by blast
    qed
  qed
qed

lemma regex_bpe_step_Inr:
  assumes V: "256 \<le> V"
    and inv: "bpe_inv V i chunks0 (chunks, vocab, merges)"
    and step: "regex_bpe_step V (int i) (chunks, vocab, merges) = Inr st'"
  obtains p c where "c \<in> set chunks" "p \<in> adjacent c"
    "st' = (map (\<lambda>chunk. merge chunk p (V + int i)) chunks,
            vocab @ [(V + int i, dict_get vocab (fst p) [] @ dict_get vocab (snd p) [])],
            merges @ [(p, V + int i)])"
proof -
  define n where "n = V + int i"
  from inv have old: "\<And>q. q \<in> set (map fst merges) \<Longrightarrow>
                 fst q < n \<and> snd q < n \<and> (\<forall>c\<in>set chunks. q \<notin> adjacent c)"
    and toks: "\<And>c. c \<in> set chunks \<Longrightarrow> set c \<subseteq> set (map fst vocab)"
    and keys: "map fst vocab = map int [0..<256] @ learned_ids V i"
    unfolding bpe_inv_def prod.case n_def by blast+
  have key_bound: "t < n" if "t \<in> set (map fst vocab)" for t
    using that V learned_ids_bound [of t V i] unfolding keys n_def by auto
  have n_fresh: "n \<notin> fst ` set vocab"
    using key_bound [of n] by auto
  from step obtain p where p: "p \<in> (\<Union>c\<in>set chunks. adjacent c)"
    and r: "Inr st' = (case dict_subscript vocab (fst p) of
              Inl e \<Rightarrow> Inl e
            | Inr b0 \<Rightarrow>
                (case dict_subscript vocab (snd p) of
                   Inl e \<Rightarrow> Inl e
                 | Inr b1 \<Rightarrow>
                     Inr (map (\<lambda>chunk. merge chunk p n) chunks,
                          dict_set vocab n (b0 @ b1), dict_set merges p n)))"
    unfolding n_def by (cases rule: regex_bpe_step_cases) auto
  from p obtain c where c: "c \<in> set chunks" "p \<in> adjacent c" by auto
  then have "fst p \<in> set c" "snd p \<in> set c"
    using adjacent_members [of "fst p" "snd p" c] by simp_all
  with toks [OF c(1)] have pk: "fst p \<in> fst ` set vocab" "snd p \<in> fst ` set vocab"
    by auto
  have p_new: "p \<notin> fst ` set merges"
    using old [of p] c by auto
  have "st' = (map (\<lambda>chunk. merge chunk p n) chunks,
               vocab @ [(n, dict_get vocab (fst p) [] @ dict_get vocab (snd p) [])],
               merges @ [(p, n)])"
    using r pk p_new n_fresh
    by (simp add: dict_subscript_present [where dflt = "[]"] dict_set_fresh)
  with c show thesis unfolding n_def by (rule that)
qed

lemma learned_within_step:
  assumes V: "256 \<le> V"
    and inv: "bpe_inv V i chunks0 (chunks, vocab, merges)"
    and bytes: "\<And>c. c \<in> set chunks0 \<Longrightarrow> list_all is_byte_token c"
    and within: "learned_within chunks0 vocab"
    and step: "regex_bpe_step V (int i) (chunks, vocab, merges) = Inr (chunks', vocab', merges')"
  shows "learned_within chunks0 vocab'"
proof -
  from V inv step obtain p c where c: "c \<in> set chunks" "p \<in> adjacent c"
    and v: "vocab' = vocab @ [(V + int i, dict_get vocab (fst p) [] @ dict_get vocab (snd p) [])]"
    by (rule regex_bpe_step_Inr) simp
  from inv have "chunks = map (replay_merges merges) chunks0"
    unfolding bpe_inv_def prod.case by blast
  with c(1) obtain c0 where c0: "c0 \<in> set chunks0" "c = replay_merges merges c0" by auto
  have e: "expand vocab c = map nat c0"
    unfolding c0(2) using bpe_inv_expand [OF inv bytes [OF c0(1)]] .
  from c(2) obtain pre suf where "c = pre @ fst p # snd p # suf"
    using adjacent_split [of "fst p" "snd p" c] by auto
  then have "expand vocab c = expand vocab pre
      @ (dict_get vocab (fst p) [] @ dict_get vocab (snd p) []) @ expand vocab suf"
    by simp
  with e have "is_slice (dict_get vocab (fst p) [] @ dict_get vocab (snd p) []) (map nat c0)"
    unfolding is_slice_iff by metis
  with c0(1) have "list_ex (\<lambda>chunk. is_slice (dict_get vocab (fst p) [] @ dict_get vocab (snd p) [])
      (map nat chunk)) chunks0"
    unfolding list_ex_iff by blast
  with within show ?thesis
    unfolding v learned_within_def by simp
qed

lemma learned_within_loop:
  assumes V: "256 \<le> V"
    and bytes: "\<And>c. c \<in> set chunks0 \<Longrightarrow> list_all is_byte_token c"
  shows "bpe_inv V i chunks0 st \<Longrightarrow> learned_within chunks0 (fst (snd st)) \<Longrightarrow>
         regex_bpe_loop V (map int [i..<i + k]) st = Inr st' \<Longrightarrow>
         learned_within chunks0 (fst (snd st'))"
proof (induction k arbitrary: i st)
  case 0
  then show ?case by simp
next
  case (Suc k)
  have u: "[i..<i + Suc k] = i # [Suc i..<Suc i + k]"
    by (simp add: upt_conv_Cons)
  obtain chunks vocab merges where st: "st = (chunks, vocab, merges)"
    by (cases st)
  from Suc.prems(3) obtain st1 where s1: "regex_bpe_step V (int i) st = Inr st1"
    and l1: "regex_bpe_loop V (map int [Suc i..<Suc i + k]) st1 = Inr st'"
    unfolding u by (auto split: sum.splits)
  obtain chunks1 vocab1 merges1 where st1: "st1 = (chunks1, vocab1, merges1)"
    by (cases st1)
  have i1: "bpe_inv V (Suc i) chunks0 st1"
    using bpe_inv_step [OF V] Suc.prems(1) s1 unfolding st by blast
  have inv0: "bpe_inv V i chunks0 (chunks, vocab, merges)"
    using Suc.prems(1) unfolding st .
  have w0: "learned_within chunks0 vocab"
    using Suc.prems(2) unfolding st by simp
  have s0: "regex_bpe_step V (int i) (chunks, vocab, merges) = Inr (chunks1, vocab1, merges1)"
    using s1 unfolding st st1 .
  have w1: "learned_within chunks0 (fst (snd st1))"
    using learned_within_step [OF V inv0 bytes w0 s0] unfolding st1 by simp
  from Suc.IH [OF i1 w1 l1] show ?case by simp
qed

lemma learned_within_base: "learned_within chunks0 base_vocab"
proof -
  have "is_byte_token t" if "(t, bs) \<in> set base_vocab" for t bs
    using that in_keys_base_vocab [of t] by force
  then show ?thesis
    unfolding learned_within_def list_all_iff by auto
qed

lemma regex_bpe_loop_within:
  assumes "\<And>c. c \<in> set chunks0 \<Longrightarrow> list_all is_byte_token c"
    and "regex_bpe_loop V (py_range (V - 256)) (chunks0, base_vocab, []) = Inr (chunks, vocab, merges)"
  shows "learned_within chunks0 vocab"
proof (cases "256 \<le> V")
  case True
  from assms(2) have "regex_bpe_loop V (map int [0..<0 + nat (V - 256)]) (chunks0, base_vocab, [])
      = Inr (chunks, vocab, merges)"
    by (simp add: py_range_def)
  from learned_within_loop [OF True assms(1) bpe_inv_init _ this] assms(1) learned_within_base
  show ?thesis by simp
next
  case False
  then have "py_range (V - 256) = []" by (simp add: py_range_def)
  with assms(2) learned_within_base show ?thesis by simp
qed

subsection \<open>Split and unsplit training and encoding on concrete input\<close>

lemma learned_within_append:
  "learned_within chunks (base_vocab @ learned) = learned_within chunks learned"
  using learned_within_base [of chunks] by (simp add: learned_within_def)

lemma basic_train_ab_cd:
  "basic_train init_tokenizer [97, 98, 32, 99, 100] 259
     = (Inr (), \<lparr>self_vocab = Some (base_vocab @ [(259, [97, 98]), (260, [97, 98, 32]), (261, [97, 98, 32, 99])]),
                 self_merges = Some [((97, 98), 259), ((259, 32), 260), ((260, 99), 261)]\<rparr>)"
  by (simp add: run_training py_range_3)

lemma findall_12_12: "findall ascii_db [49, 50, 32, 49, 50] = [[49, 50], [32], [49, 50]]"
  by code_simp

lemma findall_1212: "findall ascii_db [49, 50, 49, 50] = [[49, 50, 49], [50]]"
  by code_simp

lemma regex_train_12_12:
  "regex_train ascii_db init_tokenizer [49, 50, 32, 49, 50] 257
     = (Inr (), \<lparr>self_vocab = Some (base_vocab @ [(257, [49, 50])]),
                 self_merges = Some [((49, 50), 257)]\<rparr>)"
  by (simp add: run_training py_range_1 findall_12_12)

lemma unsplit_not_within:
  "\<not> learned_within [[97, 98], [32, 99, 100]]
       [(259, [97, 98]), (260, [97, 98, 32]), (261, [97, 98, 32, 99])]"
  by code_simp

text \<open>
  The three equations of lenient decoding (nothing for the empty string, the code point
  for a well-formed sequence, \<open>U+FFFD\<close> for an ill-formed span, each followed by the
  decoding of the rest) have one solution only.
\<close>

lemma ill_formed_span_pos: "0 < ill_formed_span bs"
  by (simp add: ill_formed_span_def)

lemma lenient_decoding_unique:
  assumes nil: "f [] = []"
    and wf: "\<And>c w rest. utf8_encode_char c = Inr w \<Longrightarrow> f (w @ rest) = c # f rest"
    and ill: "\<And>bs. bs \<noteq> [] \<Longrightarrow> \<not> starts_well_formed bs \<Longrightarrow>
               f bs = 0xFFFD # f (drop (ill_formed_span bs) bs)"
  shows "f bs = utf8_decode_replace bs"
proof (induction bs rule: length_induct)
  case (1 bs)
  show ?case
  proof (cases "bs = []")
    case True
    then show ?thesis by (simp add: nil)
  next
    case False
    show ?thesis
    proof (cases "starts_well_formed bs")
      case True
      then obtain c w rest where w: "utf8_encode_char c = Inr w" "bs = w @ rest"
        unfolding starts_well_formed_def well_formed_def by blast
      then have "well_formed w" unfolding well_formed_def by blast
      then have "w \<noteq> []" by auto
      with w(2) have "length rest < length bs" by simp
      with 1 have "f rest = utf8_decode_replace rest" by blast
      with wf [OF w(1), of rest] utf8_encode_char_decode [OF w(1), of rest] w(2)
      show ?thesis by simp
    next
      case n: False
      have "length (drop (ill_formed_span bs) bs) < length bs"
        using False ill_formed_span_pos [of bs] by simp
      with 1 have "f (drop (ill_formed_span bs) bs)
          = utf8_decode_replace (drop (ill_formed_span bs) bs)" by blast
      with ill [OF False n] decode_ill_formed [OF False n] show ?thesis by simp
    qed
  qed
qed

section \<open>Claims about the merge kernel\<close>

text \<open>
  C6. \<open>_merge\<close> returns a list built from scratch (the model is a pure function of
  the input list, which the source only reads) that is the input with every
  non-overlapping occurrence of the pair, found greedily from the left, replaced by the
  replacement token. On \<open>[X, X, X]\<close> with the pair \<open>(X, X)\<close> the result is \<open>[Y, X]\<close>: the
  first two elements are merged and the third is left; this is \<open>[Y, Y]\<close> only in the
  degenerate case where the replacement is \<open>X\<close> itself.
\<close>

theorem merge_greedy_non_overlapping:
  "merge tokens pair_to_replace replacement_token
     = merge_greedy tokens pair_to_replace replacement_token
   \<and> merge [X, X, X] (X, X) Y = [Y, X]
   \<and> (merge [X, X, X] (X, X) Y = [Y, Y]) = (X = Y)"
  by (simp add: merge_eq_greedy)

section \<open>Claims about the tokenizers\<close>

text \<open>
  C5. On a freshly constructed tokenizer of either class, \<open>encode\<close> and \<open>decode\<close>
  raise the "has not been trained" exception, whatever the input: the check of
  \<open>self._vocab\<close> and \<open>self._merges\<close> comes before anything else.
\<close>

theorem untrained_tokenizer_refuses:
  "basic_encode init_tokenizer text = Inl NotTrained
   \<and> basic_decode init_tokenizer encoded_tokens = Inl NotTrained
   \<and> regex_encode u init_tokenizer text = Inl NotTrained
   \<and> regex_decode init_tokenizer encoded_tokens = Inl NotTrained"
  by (simp add: basic_encode_def basic_decode_def regex_encode_def regex_decode_def
      init_tokenizer_def)

text \<open>
  C9. On a trained tokenizer, \<open>decode\<close> raises \<open>KeyError\<close> (the unknown-token error)
  exactly when some id of the list is not a key of the vocabulary, and the key reported
  is such an id. When every id is a key, \<open>decode\<close> returns the lenient UTF-8 decoding
  of the concatenated byte strings, and both classes share the code. Lenient decoding
  cannot fail, and is fixed by three equations: the empty byte string decodes to the
  empty text; where the bytes start with the encoding of a code point, that code point
  comes out and decoding goes on after it; where they do not, the ill-formed span at the
  head (the longest beginning that more bytes could complete to a well-formed sequence,
  and at least one byte) comes out as one \<open>U+FFFD\<close> and decoding goes on after it.
\<close>

theorem decode_fails_only_on_unknown_token:
  assumes "self_vocab self = Some vocab" and "self_merges self = Some merges"
  shows "((\<exists>t\<in>set encoded_tokens. t \<notin> fst ` set vocab) \<longrightarrow>
            (\<exists>k. k \<in> set encoded_tokens \<and> k \<notin> fst ` set vocab
                 \<and> basic_decode self encoded_tokens = Inl (KeyError k)))
       \<and> ((\<forall>t\<in>set encoded_tokens. t \<in> fst ` set vocab) \<longrightarrow>
            basic_decode self encoded_tokens
              = Inr (utf8_decode_replace (expand vocab encoded_tokens)))
       \<and> regex_decode self encoded_tokens = basic_decode self encoded_tokens
       \<and> (utf8_encode s = Inr b \<and> ((0x80 \<le> x \<and> x < 0xC2) \<or> 0xF5 \<le> x) \<longrightarrow>
            utf8_decode_replace (b @ x # rest) = s @ 0xFFFD # utf8_decode_replace rest)
       \<and> utf8_decode_replace [] = []
       \<and> (utf8_encode_char c = Inr w \<longrightarrow>
            utf8_decode_replace (w @ bs') = c # utf8_decode_replace bs')
       \<and> (bs \<noteq> [] \<and> \<not> starts_well_formed bs \<longrightarrow>
            utf8_decode_replace bs
              = 0xFFFD # utf8_decode_replace (drop (ill_formed_span bs) bs))"
proof (intro conjI impI)
  assume "\<exists>t\<in>set encoded_tokens. t \<notin> fst ` set vocab"
  then have "\<not> set encoded_tokens \<subseteq> fst ` set vocab" by blast
  from vocab_lookup_all_absent [OF this]
  show "\<exists>k. k \<in> set encoded_tokens \<and> k \<notin> fst ` set vocab
            \<and> basic_decode self encoded_tokens = Inl (KeyError k)"
    by (auto simp: decode_trained [OF assms])
next
  assume "\<forall>t\<in>set encoded_tokens. t \<in> fst ` set vocab"
  then have "set encoded_tokens \<subseteq> fst ` set vocab" by blast
  from vocab_lookup_all_present [OF this]
  show "basic_decode self encoded_tokens = Inr (utf8_decode_replace (expand vocab encoded_tokens))"
    by (simp add: decode_trained [OF assms] expand_def)
next
  show "regex_decode self encoded_tokens = basic_decode self encoded_tokens"
    by (rule regex_decode_eq)
next
  assume "utf8_encode s = Inr b \<and> ((0x80 \<le> x \<and> x < 0xC2) \<or> 0xF5 \<le> x)"
  then have "utf8_encode s = Inr b" and "(0x80 \<le> x \<and> x < 0xC2) \<or> 0xF5 \<le> x"
    by simp_all
  from utf8_encode_decode [OF this(1), of "x # rest"] utf8_decode_invalid_start [OF this(2), of rest]
  show "utf8_decode_replace (b @ x # rest) = s @ 0xFFFD # utf8_decode_replace rest"
    by simp
next
  show "utf8_decode_replace [] = []" by simp
next
  assume "utf8_encode_char c = Inr w"
  then show "utf8_decode_replace (w @ bs') = c # utf8_decode_replace bs'"
    by (rule utf8_encode_char_decode)
next
  assume "bs \<noteq> [] \<and> \<not> starts_well_formed bs"
  then show "utf8_decode_replace bs
      = 0xFFFD # utf8_decode_replace (drop (ill_formed_span bs) bs)"
    by (simp add: decode_ill_formed)
qed

theorem decode_fails_only_on_unknown_token_witness:
  "basic_decode \<lparr>self_vocab = Some base_vocab, self_merges = Some []\<rparr> [97, 300] = Inl (KeyError 300)
   \<and> basic_decode \<lparr>self_vocab = Some base_vocab, self_merges = Some []\<rparr> [97, 128, 98]
       = Inr [97, 0xFFFD, 98]
   \<and> regex_decode \<lparr>self_vocab = Some base_vocab, self_merges = Some []\<rparr> [97, 128, 98]
       = Inr [97, 0xFFFD, 98]
   \<and> utf8_decode_replace ([0xC3, 0xA9] @ 0xFF # [0x41]) = [0xE9] @ 0xFFFD # [0x41]
   \<and> basic_decode \<lparr>self_vocab = Some base_vocab, self_merges = Some []\<rparr> [226, 130, 65]
       = Inr [0xFFFD, 65]
   \<and> basic_decode \<lparr>self_vocab = Some base_vocab, self_merges = Some []\<rparr> [240, 159, 152]
       = Inr [0xFFFD]
   \<and> basic_decode \<lparr>self_vocab = Some base_vocab, self_merges = Some []\<rparr> [224, 128, 65]
       = Inr [0xFFFD, 0xFFFD, 65]"
proof -
  let ?self = "\<lparr>self_vocab = Some base_vocab, self_merges = Some []\<rparr>"
  have k: "(t \<in> fst ` set base_vocab) = is_byte_token t" for t
    by (rule in_keys_base_vocab)
  have e: "utf8_encode [0xE9] = Inr [0xC3, 0xA9]"
    by (simp add: utf8_encode_char_def)
  have a: "\<exists>k. k \<in> set [97, 300] \<and> k \<notin> fst ` set base_vocab
            \<and> basic_decode ?self [97, 300] = Inl (KeyError k)"
    using decode_fails_only_on_unknown_token [of ?self base_vocab "[]" "[97, 300]"]
    by (simp add: k is_byte_token_def)
  have dec: "basic_decode ?self toks = Inr (utf8_decode_replace (map nat toks))"
    if "list_all is_byte_token toks" for toks
    using decode_fails_only_on_unknown_token [of ?self base_vocab "[]" toks] that
    by (simp add: k list_all_iff expand_base_vocab)
  have c: "regex_decode ?self [97, 128, 98] = basic_decode ?self [97, 128, 98]"
    using decode_fails_only_on_unknown_token [of ?self base_vocab "[]" "[97, 128, 98]"]
    by simp
  have nil: "utf8_decode_replace [] = []"
    using decode_fails_only_on_unknown_token [of ?self base_vocab "[]"] by simp
  have one: "utf8_decode_replace (ch # tl_bytes) = ch # utf8_decode_replace tl_bytes"
    if "ch < 0x80" for ch tl_bytes
    using decode_fails_only_on_unknown_token [of ?self base_vocab "[]" _ _ _ _ _ ch "[ch]" tl_bytes]
      that
    by (simp add: utf8_encode_char_def)
  have ill: "utf8_decode_replace bs = 0xFFFD # utf8_decode_replace (drop (ill_formed_span bs) bs)"
    if "bs \<noteq> []" "\<not> starts_well_formed bs" for bs
    using decode_fails_only_on_unknown_token [of ?self base_vocab "[]" _ _ _ _ _ _ _ _ bs] that
    by simp
  have f: "utf8_decode_replace ([0xC3, 0xA9] @ 0xFF # [0x41]) = [0xE9] @ 0xFFFD # utf8_decode_replace [0x41]"
    using decode_fails_only_on_unknown_token [of ?self base_vocab "[]" "[]" "[0xE9]" "[0xC3, 0xA9]" "0xFF" "[0x41]"] e
    by simp
  have d1: "utf8_decode_replace [128, 98] = [0xFFFD, 98]"
    using ill [of "[128, 98]"]
    by (simp add: starts_well_formed_iff ill_formed_span_def is_continuation_byte_def one nil)
  have d2: "utf8_decode_replace [226, 130, 65] = [0xFFFD, 65]"
    using ill [of "[226, 130, 65]"]
    by (simp add: starts_well_formed_iff ill_formed_span_def is_continuation_byte_def one nil)
  have d3: "utf8_decode_replace [240, 159, 152] = [0xFFFD]"
    using ill [of "[240, 159, 152]"]
    by (simp add: starts_well_formed_iff ill_formed_span_def is_continuation_byte_def one nil)
  have d4: "utf8_decode_replace [128, 65] = [0xFFFD, 65]"
    using ill [of "[128, 65]"]
    by (simp add: starts_well_formed_iff ill_formed_span_def is_continuation_byte_def one nil)
  have d5: "utf8_decode_replace [224, 128, 65] = [0xFFFD, 0xFFFD, 65]"
    using ill [of "[224, 128, 65]"] d4
    by (simp add: starts_well_formed_iff ill_formed_span_def is_continuation_byte_def)
  from a have "basic_decode ?self [97, 300] = Inl (KeyError 300)"
    by (auto simp: k is_byte_token_def)
  with c f dec [of "[97, 128, 98]"] dec [of "[226, 130, 65]"] dec [of "[240, 159, 152]"]
    dec [of "[224, 128, 65]"] d1 d2 d3 d5 show ?thesis
    by (simp add: is_byte_token_def one nil)
qed

text \<open>
  C10. \<open>train\<close> is not total above the base alphabet. With \<open>vocab_size > 256\<close> the
  loop runs at least once; when the text encodes to fewer than two bytes (Byte
  Tokenizer), or no chunk has two bytes (Chunked Tokenizer), the first iteration takes
  \<open>max\<close> of an empty dictionary and \<open>train\<close> raises \<open>ValueError\<close>. The fields of the
  tokenizer are assigned only after the loop, so the object is left as it was.
\<close>

theorem train_without_a_pair_raises:
  assumes "256 < vocab_size"
  shows "(utf8_encode text = Inr b \<and> length b < 2 \<longrightarrow>
            basic_train self text vocab_size = (Inl ValueError, self))
       \<and> (encode_chunks (findall u text) = Inr chunks \<and> list_all (\<lambda>c. length c < 2) chunks \<longrightarrow>
            regex_train u self text vocab_size = (Inl ValueError, self))"
proof (intro conjI impI)
  from assms have r: "py_range (vocab_size - 256) = 0 # map int [1..<nat (vocab_size - 256)]"
    by (simp add: py_range_pos)
  {
    assume "utf8_encode text = Inr b \<and> length b < 2"
    then show "basic_train self text vocab_size = (Inl ValueError, self)"
      by (simp add: basic_train_def basic_byte_pair_encode_def r basic_bpe_step_no_pair)
  next
    assume "encode_chunks (findall u text) = Inr chunks \<and> list_all (\<lambda>c. length c < 2) chunks"
    then show "regex_train u self text vocab_size = (Inl ValueError, self)"
      by (simp add: regex_train_def regex_byte_pair_encode_def r regex_bpe_step_no_pair
          list_all_iff)
  }
qed

theorem train_without_a_pair_raises_witness:
  "basic_train \<lparr>self_vocab = Some base_vocab, self_merges = Some []\<rparr> [97] 300
     = (Inl ValueError, \<lparr>self_vocab = Some base_vocab, self_merges = Some []\<rparr>)
   \<and> regex_train ascii_db \<lparr>self_vocab = Some base_vocab, self_merges = Some []\<rparr> [97, 33] 300
     = (Inl ValueError, \<lparr>self_vocab = Some base_vocab, self_merges = Some []\<rparr>)"
proof -
  have e: "utf8_encode [97] = Inr [97]"
    by (simp add: utf8_encode_char_def)
  have c: "encode_chunks (findall ascii_db [97, 33]) = Inr [[97], [33]]"
    by (simp add: findall_ascii_1 utf8_encode_char_def)
  let ?self = "\<lparr>self_vocab = Some base_vocab, self_merges = Some []\<rparr>"
  have "basic_train ?self [97] 300 = (Inl ValueError, ?self)"
    using train_without_a_pair_raises [of 300 "[97]" "[97]" ?self] e
    by simp
  moreover have "regex_train ascii_db ?self [97, 33] 300 = (Inl ValueError, ?self)"
    using train_without_a_pair_raises [of 300 "[97, 33]" _ ?self ascii_db "[[97], [33]]"] c
    by simp
  ultimately show ?thesis by simp
qed

text \<open>
  C4. The claim that \<open>train\<close> fails when \<open>vocab_size\<close> is below the base alphabet
  does not hold: the code has no check of \<open>vocab_size\<close>, and \<open>range\<close> of a negative
  number is empty. Training the text \<open>ab\<close> with \<open>vocab_size = 100\<close> succeeds on both
  classes.
\<close>

theorem train_below_base_alphabet_counterexample:
  "basic_train init_tokenizer [97, 98] 100
     = (Inr (), \<lparr>self_vocab = Some base_vocab, self_merges = Some []\<rparr>)
   \<and> regex_train ascii_db init_tokenizer [97, 98] 100
     = (Inr (), \<lparr>self_vocab = Some base_vocab, self_merges = Some []\<rparr>)"
  by (simp add: basic_train_def regex_train_def findall_ascii_2 utf8_encode_char_def
      basic_byte_pair_encode_def regex_byte_pair_encode_def py_range_def init_tokenizer_def)

text \<open>
  C4, as the code has it: for every text that can be encoded and every
  \<open>vocab_size \<le> 256\<close>, \<open>train\<close> of either class raises nothing, performs no merge
  and installs the 256 base entries as vocabulary and an empty merge table.
\<close>

theorem train_small_vocab_size_succeeds:
  assumes "vocab_size \<le> 256" and "utf8_encode text = Inr b"
  shows "basic_train self text vocab_size
           = (Inr (), self\<lparr>self_vocab := Some base_vocab, self_merges := Some []\<rparr>)
       \<and> regex_train u self text vocab_size
           = (Inr (), self\<lparr>self_vocab := Some base_vocab, self_merges := Some []\<rparr>)"
proof -
  from assms(1) have r: "py_range (vocab_size - 256) = []"
    by (simp add: py_range_nonpos)
  from encode_chunks_findall [OF assms(2), of u] obtain bs
    where "encode_chunks (findall u text) = Inr bs" by blast
  with assms(2) r show ?thesis
    by (simp add: basic_train_def regex_train_def basic_byte_pair_encode_def
        regex_byte_pair_encode_def)
qed

theorem train_small_vocab_size_succeeds_witness:
  "basic_train init_tokenizer [0x20AC] 256
     = (Inr (), \<lparr>self_vocab = Some base_vocab, self_merges = Some []\<rparr>)
   \<and> regex_train ascii_db init_tokenizer [0x20AC] 256
     = (Inr (), \<lparr>self_vocab = Some base_vocab, self_merges = Some []\<rparr>)"
proof -
  have e: "utf8_encode [0x20AC] = Inr [0xE2, 0x82, 0xAC]"
    by (simp add: utf8_encode_char_def)
  show ?thesis
    using train_small_vocab_size_succeeds [of 256 "[0x20AC]" "[0xE2, 0x82, 0xAC]" init_tokenizer ascii_db] e
    by (simp add: init_tokenizer_def)
qed

text \<open>
  C2. Training the Byte Tokenizer on \<open>aaab\<close> with \<open>vocab_size = 257\<close> performs one
  merge of the pair \<open>(97, 97)\<close>, but the new token is \<open>257\<close>, not \<open>256\<close>: \<open>train\<close>
  passes \<open>vocab_size\<close> where \<open>_byte_pair_encode\<close> expects the original vocabulary size,
  and the new id is \<open>original_vocab_size + i\<close>. So \<open>encode\<close> gives \<open>[257, 97, 98]\<close> and
  \<open>decode\<close> of \<open>[256, 97, 98]\<close> raises \<open>KeyError\<close>; \<open>[257, 97, 98]\<close> decodes to the text.
\<close>

theorem train_aaab_257:
  "basic_train init_tokenizer [97, 97, 97, 98] 257
     = (Inr (), \<lparr>self_vocab = Some (base_vocab @ [(257, [97, 97])]),
                 self_merges = Some [((97, 97), 257)]\<rparr>)
   \<and> basic_encode \<lparr>self_vocab = Some (base_vocab @ [(257, [97, 97])]),
                    self_merges = Some [((97, 97), 257)]\<rparr> [97, 97, 97, 98]
     = Inr [257, 97, 98]
   \<and> basic_decode \<lparr>self_vocab = Some (base_vocab @ [(257, [97, 97])]),
                    self_merges = Some [((97, 97), 257)]\<rparr> [256, 97, 98]
     = Inl (KeyError 256)
   \<and> basic_decode \<lparr>self_vocab = Some (base_vocab @ [(257, [97, 97])]),
                    self_merges = Some [((97, 97), 257)]\<rparr> [257, 97, 98]
     = Inr [97, 97, 97, 98]"
  by (simp add: run_training py_range_1 basic_encode_def basic_decode_def replay_merges_def
      utf8_decode_1)

text \<open>
  C1. After a successful \<open>train\<close> with \<open>vocab_size = V \<ge> 256\<close> the vocabulary has \<open>V\<close>
  entries and the merge table \<open>V - 256\<close> (lemma \<open>basic_train_tables\<close>), but the merge of
  iteration \<open>i\<close> gets the id \<open>V + i\<close>, not \<open>256 + i\<close>: training \<open>abab\<close> with
  \<open>vocab_size = 258\<close> hands out \<open>258\<close> and \<open>259\<close>, and \<open>256\<close> and \<open>257\<close> stay unused.
\<close>

theorem train_abab_258:
  "basic_train init_tokenizer [97, 98, 97, 98] 258
     = (Inr (), \<lparr>self_vocab = Some (base_vocab @ [(258, [97, 98]), (259, [97, 98, 97, 98])]),
                 self_merges = Some [((97, 98), 258), ((258, 258), 259)]\<rparr>)"
  by (simp add: run_training py_range_2)

text \<open>
  C3. Round trip. Take a tokenizer of either class whose state comes from a successful
  \<open>train\<close> call with \<open>vocab_size \<ge> 256\<close> on any corpus, and any text \<open>T\<close> that can be
  encoded as UTF-8. Then \<open>encode\<close> succeeds on \<open>T\<close>, and \<open>decode\<close> of its result is \<open>T\<close>.
\<close>

theorem decode_encode_round_trip:
  assumes "256 \<le> vocab_size" and "utf8_encode T = Inr b"
  shows "(basic_train self C vocab_size = (Inr (), self') \<longrightarrow>
            (\<exists>toks. basic_encode self' T = Inr toks \<and> basic_decode self' toks = Inr T))
       \<and> (regex_train u self C vocab_size = (Inr (), self'') \<longrightarrow>
            (\<exists>toks. regex_encode u self'' T = Inr toks \<and> regex_decode self'' toks = Inr T))"
proof (intro conjI impI)
  assume "basic_train self C vocab_size = (Inr (), self')"
  then obtain bC tokens vocab merges where bC: "utf8_encode C = Inr bC"
    and l: "basic_bpe_loop vocab_size (py_range (vocab_size - 256)) (map int bC, base_vocab, [])
              = Inr (tokens, vocab, merges)"
    and s: "self' = self\<lparr>self_vocab := Some vocab, self_merges := Some merges\<rparr>"
    by (rule basic_train_Inr)
  have inv: "bpe_inv vocab_size (nat (vocab_size - 256)) [map int bC] ([tokens], vocab, merges)"
    using basic_bpe_loop_trained [OF bytes_are_byte_tokens [OF bC] l] .
  have sv: "self_vocab self' = Some vocab" "self_merges self' = Some merges"
    by (simp_all add: s)
  have e: "basic_encode self' T = Inr (replay_merges merges (map int b))"
    by (simp add: basic_encode_def sv assms(2))
  have "basic_decode self' (concat (map (replay_merges merges) [map int b])) = Inr T"
    using bytes_are_byte_tokens [OF assms(2)]
    by (intro bpe_inv_decode [OF inv sv _ assms(2)]) simp_all
  with e show "\<exists>toks. basic_encode self' T = Inr toks \<and> basic_decode self' toks = Inr T"
    by simp
next
  assume "regex_train u self C vocab_size = (Inr (), self'')"
  then obtain bs chunks vocab merges where bs: "encode_chunks (findall u C) = Inr bs"
    and l: "regex_bpe_loop vocab_size (py_range (vocab_size - 256)) (bs, base_vocab, [])
              = Inr (chunks, vocab, merges)"
    and s: "self'' = self\<lparr>self_vocab := Some vocab, self_merges := Some merges\<rparr>"
    by (rule regex_train_Inr)
  have inv: "bpe_inv vocab_size (nat (vocab_size - 256)) bs (chunks, vocab, merges)"
    using regex_bpe_loop_trained [OF encode_chunks_byte_tokens [OF bs] l] .
  have sv: "self_vocab self'' = Some vocab" "self_merges self'' = Some merges"
    by (simp_all add: s)
  from encode_chunks_findall [OF assms(2), of u] obtain ts
    where ts: "encode_chunks (findall u T) = Inr ts" "concat ts = map int b" by blast
  have e: "regex_encode u self'' T = Inr (concat (map (replay_merges merges) ts))"
    by (simp add: regex_encode_def sv regex_encode_loop_chunks ts(1))
  have "basic_decode self'' (concat (map (replay_merges merges) ts)) = Inr T"
    using encode_chunks_byte_tokens [OF ts(1)]
    by (intro bpe_inv_decode [OF inv sv _ assms(2) ts(2)]) simp_all
  with e show "\<exists>toks. regex_encode u self'' T = Inr toks \<and> regex_decode self'' toks = Inr T"
    by (simp add: regex_decode_eq)
qed

theorem decode_encode_round_trip_witness:
  "(\<exists>toks. basic_encode \<lparr>self_vocab = Some (base_vocab @ [(257, [97, 97])]),
                          self_merges = Some [((97, 97), 257)]\<rparr> [0x61, 0x61, 0x20AC] = Inr toks
         \<and> basic_decode \<lparr>self_vocab = Some (base_vocab @ [(257, [97, 97])]),
                          self_merges = Some [((97, 97), 257)]\<rparr> toks = Inr [0x61, 0x61, 0x20AC])
   \<and> (\<exists>toks. regex_encode ascii_db
                \<lparr>self_vocab = Some (base_vocab @ [(259, [97, 98]), (260, [32, 99]), (261, [32, 99, 100])]),
                 self_merges = Some [((97, 98), 259), ((32, 99), 260), ((260, 100), 261)]\<rparr>
                [0x61, 0x62, 0x20, 0x20AC] = Inr toks
         \<and> regex_decode
                \<lparr>self_vocab = Some (base_vocab @ [(259, [97, 98]), (260, [32, 99]), (261, [32, 99, 100])]),
                 self_merges = Some [((97, 98), 259), ((32, 99), 260), ((260, 100), 261)]\<rparr>
                toks = Inr [0x61, 0x62, 0x20, 0x20AC])"
proof -
  have e1: "utf8_encode [0x61, 0x61, 0x20AC] = Inr [0x61, 0x61, 0xE2, 0x82, 0xAC]"
    by (simp add: utf8_encode_char_def)
  have e2: "utf8_encode [0x61, 0x62, 0x20, 0x20AC] = Inr [0x61, 0x62, 0x20, 0xE2, 0x82, 0xAC]"
    by (simp add: utf8_encode_char_def)
  show ?thesis
    using decode_encode_round_trip [of 257 "[0x61, 0x61, 0x20AC]" _ init_tokenizer
        "[97, 97, 97, 98]"] e1 basic_train_aaab
      decode_encode_round_trip [of 259 "[0x61, 0x62, 0x20, 0x20AC]" _ init_tokenizer
        "[97, 98, 32, 99, 100]" _ ascii_db] e2 regex_train_ab_cd
    by simp
qed

text \<open>
  C7. \<open>encode\<close> of the Byte Tokenizer turns the text into its UTF-8 byte values and
  applies \<open>_merge\<close> once for each entry of the merge table, in the order of the table.
  When the text is the training corpus, the result is the token list the training loop
  ended with: the loop adds each pair to the table as a new last entry, so replaying
  the table repeats the loop.
\<close>

theorem encode_replays_training:
  assumes "utf8_encode text = Inr b"
  shows "(self_vocab self = Some vocab \<and> self_merges self = Some merges \<longrightarrow>
            basic_encode self text
              = Inr (foldl (\<lambda>tokens (pair, replacement_token). merge tokens pair replacement_token)
                       (map int b) merges))
       \<and> (basic_bpe_loop vocab_size (py_range (vocab_size - 256)) (map int b, base_vocab, [])
              = Inr (final_tokens, vocab', merges') \<longrightarrow>
            basic_train self text vocab_size
              = (Inr (), self\<lparr>self_vocab := Some vocab', self_merges := Some merges'\<rparr>)
          \<and> basic_encode (self\<lparr>self_vocab := Some vocab', self_merges := Some merges'\<rparr>) text
              = Inr final_tokens)"
proof (intro conjI impI)
  assume "self_vocab self = Some vocab \<and> self_merges self = Some merges"
  then show "basic_encode self text
      = Inr (foldl (\<lambda>tokens (pair, replacement_token). merge tokens pair replacement_token)
               (map int b) merges)"
    by (simp add: basic_encode_def assms replay_merges_def)
next
  assume l: "basic_bpe_loop vocab_size (py_range (vocab_size - 256)) (map int b, base_vocab, [])
               = Inr (final_tokens, vocab', merges')"
  then show "basic_train self text vocab_size
      = (Inr (), self\<lparr>self_vocab := Some vocab', self_merges := Some merges'\<rparr>)"
    by (simp add: basic_train_def basic_byte_pair_encode_def assms)
  have "bpe_inv vocab_size (nat (vocab_size - 256)) [map int b] ([final_tokens], vocab', merges')"
    using basic_bpe_loop_trained [OF bytes_are_byte_tokens [OF assms] l] .
  then have "[final_tokens] = map (replay_merges merges') [map int b]"
    unfolding bpe_inv_def prod.case by blast
  then show "basic_encode (self\<lparr>self_vocab := Some vocab', self_merges := Some merges'\<rparr>) text
      = Inr final_tokens"
    by (simp add: basic_encode_def assms)
qed

theorem encode_replays_training_witness:
  "basic_encode \<lparr>self_vocab = Some (base_vocab @ [(258, [97, 98]), (259, [97, 98, 97, 98])]),
                 self_merges = Some [((97, 98), 258), ((258, 258), 259)]\<rparr> [97, 98, 97, 98]
     = Inr (merge (merge [97, 98, 97, 98] (97, 98) 258) (258, 258) 259)
   \<and> basic_train init_tokenizer [97, 98, 97, 98] 258
     = (Inr (), \<lparr>self_vocab = Some (base_vocab @ [(258, [97, 98]), (259, [97, 98, 97, 98])]),
                 self_merges = Some [((97, 98), 258), ((258, 258), 259)]\<rparr>)
   \<and> basic_encode \<lparr>self_vocab = Some (base_vocab @ [(258, [97, 98]), (259, [97, 98, 97, 98])]),
                 self_merges = Some [((97, 98), 258), ((258, 258), 259)]\<rparr> [97, 98, 97, 98]
     = Inr [259]"
proof -
  let ?vocab = "base_vocab @ [(258, [97, 98]), (259, [97, 98, 97, 98])]"
  let ?merges = "[((97, 98), 258), ((258, 258), 259)]"
  have e: "utf8_encode [97, 98, 97, 98] = Inr [97, 98, 97, 98]"
    by (simp add: utf8_encode_char_def)
  have l: "basic_bpe_loop 258 (py_range (258 - 256)) (map int [97, 98, 97, 98], base_vocab, [])
             = Inr ([259], ?vocab, ?merges)"
    by (simp add: run_training py_range_2)
  show ?thesis
    using encode_replays_training [OF e, of "\<lparr>self_vocab = Some ?vocab, self_merges = Some ?merges\<rparr>"
        ?vocab ?merges]
      encode_replays_training [OF e, of init_tokenizer _ _ 258 "[259]" ?vocab ?merges] l
    by (simp add: init_tokenizer_def)
qed

text \<open>
  C8. Chunk isolation. Take a Chunked Tokenizer trained by a successful \<open>train\<close> call.
  Every vocabulary entry it learned holds bytes that lie inside one chunk of the corpus,
  as \<open>findall\<close> with the split pattern cuts it: no merge joined bytes of two chunks.
  The chunks of a text are the text cut in pieces, and \<open>encode\<close> of the text is the
  concatenation, in chunk order, of the merge table replayed on the bytes of each chunk
  separately; the tokens produced for a chunk all have vocabulary entries, and their
  byte strings together are exactly the bytes of that chunk, so no token holds bytes of
  two chunks.
\<close>

theorem chunked_encode_is_per_chunk:
  assumes "regex_train u self0 corpus vocab_size = (Inr (), self)"
    and "utf8_encode text = Inr b"
  shows "\<exists>vocab merges corpus_chunks chunk_bytes.
           self_vocab self = Some vocab \<and> self_merges self = Some merges
         \<and> encode_chunks (findall u corpus) = Inr corpus_chunks
         \<and> learned_within corpus_chunks vocab
         \<and> concat (findall u text) = text
         \<and> encode_chunks (findall u text) = Inr chunk_bytes
         \<and> concat chunk_bytes = map int b
         \<and> regex_encode u self text = Inr (concat (map (replay_merges merges) chunk_bytes))
         \<and> list_all (\<lambda>chunk. set (replay_merges merges chunk) \<subseteq> fst ` set vocab
                          \<and> expand vocab (replay_merges merges chunk) = map nat chunk)
              chunk_bytes"
proof -
  from assms(1) obtain bs chunks vocab merges where bs: "encode_chunks (findall u corpus) = Inr bs"
    and l: "regex_bpe_loop vocab_size (py_range (vocab_size - 256)) (bs, base_vocab, [])
              = Inr (chunks, vocab, merges)"
    and s: "self = self0\<lparr>self_vocab := Some vocab, self_merges := Some merges\<rparr>"
    by (rule regex_train_Inr)
  have inv: "bpe_inv vocab_size (nat (vocab_size - 256)) bs (chunks, vocab, merges)"
    using regex_bpe_loop_trained [OF encode_chunks_byte_tokens [OF bs] l] .
  have w: "learned_within bs vocab"
    using regex_bpe_loop_within [OF encode_chunks_byte_tokens [OF bs] l] .
  have sv: "self_vocab self = Some vocab" "self_merges self = Some merges"
    by (simp_all add: s)
  from encode_chunks_findall [OF assms(2), of u] obtain ts
    where ts: "encode_chunks (findall u text) = Inr ts" "concat ts = map int b" by blast
  have e: "regex_encode u self text = Inr (concat (map (replay_merges merges) ts))"
    by (simp add: regex_encode_def sv regex_encode_loop_chunks ts(1))
  have "set (replay_merges merges c) \<subseteq> fst ` set vocab
        \<and> expand vocab (replay_merges merges c) = map nat c" if "c \<in> set ts" for c
    using bpe_inv_tokens_known [OF inv] bpe_inv_expand [OF inv]
      encode_chunks_byte_tokens [OF ts(1) that] by simp
  then have "list_all (\<lambda>chunk. set (replay_merges merges chunk) \<subseteq> fst ` set vocab
                          \<and> expand vocab (replay_merges merges chunk) = map nat chunk) ts"
    by (simp add: list_all_iff)
  with sv bs w ts e concat_findall [of u "text"] show ?thesis by blast
qed

text \<open>
  The example of the claim: \<open>ab cd\<close> is cut into \<open>ab\<close> and \<open> cd\<close>. Trained on it with
  \<open>vocab_size = 259\<close>, the Chunked Tokenizer learns \<open>ab\<close>, \<open> c\<close> and \<open> cd\<close>, each inside
  one chunk, and encodes the text as one token for each chunk; the Byte Tokenizer on the
  same input learns \<open>ab \<close>, which crosses the boundary. At encoding: after training on
  \<open>12 12\<close>, the text \<open>1212\<close> is cut into \<open>121\<close> and \<open>2\<close> and encodes to \<open>[257, 49, 50]\<close>,
  where the same merge table replayed on the whole text gives \<open>[257, 257]\<close>.
\<close>

theorem chunked_encode_is_per_chunk_witness:
  "findall ascii_db [97, 98, 32, 99, 100] = [[97, 98], [32, 99, 100]]
   \<and> regex_train ascii_db init_tokenizer [97, 98, 32, 99, 100] 259
       = (Inr (), \<lparr>self_vocab = Some (base_vocab @ [(259, [97, 98]), (260, [32, 99]), (261, [32, 99, 100])]),
                   self_merges = Some [((97, 98), 259), ((32, 99), 260), ((260, 100), 261)]\<rparr>)
   \<and> learned_within [[97, 98], [32, 99, 100]]
         (base_vocab @ [(259, [97, 98]), (260, [32, 99]), (261, [32, 99, 100])])
   \<and> regex_encode ascii_db (snd (regex_train ascii_db init_tokenizer [97, 98, 32, 99, 100] 259))
         [97, 98, 32, 99, 100] = Inr ([259] @ [261])
   \<and> basic_train init_tokenizer [97, 98, 32, 99, 100] 259
       = (Inr (), \<lparr>self_vocab = Some (base_vocab @ [(259, [97, 98]), (260, [97, 98, 32]), (261, [97, 98, 32, 99])]),
                   self_merges = Some [((97, 98), 259), ((259, 32), 260), ((260, 99), 261)]\<rparr>)
   \<and> \<not> learned_within [[97, 98], [32, 99, 100]]
         (base_vocab @ [(259, [97, 98]), (260, [97, 98, 32]), (261, [97, 98, 32, 99])])
   \<and> findall ascii_db [49, 50, 32, 49, 50] = [[49, 50], [32], [49, 50]]
   \<and> findall ascii_db [49, 50, 49, 50] = [[49, 50, 49], [50]]
   \<and> regex_encode ascii_db (snd (regex_train ascii_db init_tokenizer [49, 50, 32, 49, 50] 257))
         [49, 50, 49, 50] = Inr ([257, 49] @ [50])
   \<and> basic_encode (snd (regex_train ascii_db init_tokenizer [49, 50, 32, 49, 50] 257))
         [49, 50, 49, 50] = Inr [257, 257]"
proof -
  let ?vocab = "base_vocab @ [(259, [97, 98]), (260, [32, 99]), (261, [32, 99, 100])]"
  let ?merges = "[((97, 98), 259), ((32, 99), 260), ((260, 100), 261)]"
  let ?self = "\<lparr>self_vocab = Some ?vocab, self_merges = Some ?merges\<rparr>"
  let ?self2 = "\<lparr>self_vocab = Some (base_vocab @ [(257, [49, 50])]),
                 self_merges = Some [((49, 50), 257)]\<rparr>"
  have e1: "utf8_encode [97, 98, 32, 99, 100] = Inr [97, 98, 32, 99, 100]"
    and e2: "utf8_encode [49, 50, 49, 50] = Inr [49, 50, 49, 50]"
    by (simp_all add: utf8_encode_char_def)
  have c1: "encode_chunks (findall ascii_db [97, 98, 32, 99, 100]) = Inr [[97, 98], [32, 99, 100]]"
    and c2: "encode_chunks (findall ascii_db [49, 50, 49, 50]) = Inr [[49, 50, 49], [50]]"
    by (simp_all add: findall_ab_cd findall_1212 utf8_encode_char_def)
  from chunked_encode_is_per_chunk [OF regex_train_ab_cd e1]
  obtain vocab merges corpus_chunks chunk_bytes where v: "self_vocab ?self = Some vocab"
    and m: "self_merges ?self = Some merges"
    and cc: "encode_chunks (findall ascii_db [97, 98, 32, 99, 100]) = Inr corpus_chunks"
    and w: "learned_within corpus_chunks vocab"
    and cb: "encode_chunks (findall ascii_db [97, 98, 32, 99, 100]) = Inr chunk_bytes"
    and r: "regex_encode ascii_db ?self [97, 98, 32, 99, 100]
           = Inr (concat (map (replay_merges merges) chunk_bytes))"
    by blast
  from v m have vm: "vocab = ?vocab" "merges = ?merges" by simp_all
  from cc cb c1 have ch: "corpus_chunks = [[97, 98], [32, 99, 100]]"
    "chunk_bytes = [[97, 98], [32, 99, 100]]" by simp_all
  from w have a: "learned_within [[97, 98], [32, 99, 100]] ?vocab"
    unfolding vm ch .
  from r have b: "regex_encode ascii_db ?self [97, 98, 32, 99, 100] = Inr ([259] @ [261])"
    unfolding vm ch by (simp add: replay_merges_def merge_eq_greedy)
  from chunked_encode_is_per_chunk [OF regex_train_12_12 e2]
  obtain merges2 chunk_bytes2 where m2: "self_merges ?self2 = Some merges2"
    and cb2: "encode_chunks (findall ascii_db [49, 50, 49, 50]) = Inr chunk_bytes2"
    and r2: "regex_encode ascii_db ?self2 [49, 50, 49, 50]
           = Inr (concat (map (replay_merges merges2) chunk_bytes2))"
    by blast
  from m2 have vm2: "merges2 = [((49, 50), 257)]" by simp
  from cb2 c2 have ch2: "chunk_bytes2 = [[49, 50, 49], [50]]" by simp
  from r2 have c: "regex_encode ascii_db ?self2 [49, 50, 49, 50] = Inr ([257, 49] @ [50])"
    unfolding vm2 ch2 by (simp add: replay_merges_def merge_eq_greedy)
  have d: "basic_encode ?self2 [49, 50, 49, 50] = Inr [257, 257]"
    by (simp add: basic_encode_def utf8_encode_char_def replay_merges_def merge_eq_greedy)
  from a b c d show ?thesis
    by (simp add: findall_ab_cd findall_12_12 findall_1212 regex_train_ab_cd regex_train_12_12
        basic_train_ab_cd learned_within_append unsplit_not_within)
qed

end
